theory Spec2Isabelle
  imports Main "HOL-Library.Sublist" "HOL-Library.Char_ord" "HOL-Library.List_Lexorder"
begin

section \<open>Python string primitives used by the scripts\<close>

text \<open>
  The three scripts (\<^verbatim>\<open>link-list.py\<close>, \<^verbatim>\<open>link-list-new.py\<close>, \<^verbatim>\<open>link-list-v2.py\<close>) work on
  Python \<^verbatim>\<open>str\<close> values. A string is modelled as a \<^typ>\<open>string\<close>, one \<^typ>\<open>char\<close> per code
  point, which covers the code points 0 to 255 (Latin-1). The character predicates below
  are Python's own (\<^verbatim>\<open>str.isdigit\<close>, \<^verbatim>\<open>str.isspace\<close>, \<^verbatim>\<open>str.lower\<close>) on that range.
\<close>

datatype py_error = IndexError | ValueError | CalledProcessError | FileNotFoundError

text \<open>Sequencing of computations that may raise: the first exception wins.\<close>

definition py_bind :: "py_error + 'a \<Rightarrow> ('a \<Rightarrow> py_error + 'b) \<Rightarrow> py_error + 'b" where
  "py_bind m f = (case m of Inl e \<Rightarrow> Inl e | Inr x \<Rightarrow> f x)"

text \<open>\<^verbatim>\<open>xs[i]\<close> for a non-negative literal index: IndexError when out of range.\<close>

definition py_index :: "'a list \<Rightarrow> nat \<Rightarrow> py_error + 'a" where
  "py_index xs i = (if i < length xs then Inr (xs ! i) else Inl IndexError)"

text \<open>\<^verbatim>\<open>s.split(sep)\<close> for a one-character separator: never returns the empty list.\<close>

fun split_chr :: "char \<Rightarrow> string \<Rightarrow> string list" where
  "split_chr sep [] = [[]]"
| "split_chr sep (c # cs) =
     (if c = sep then [] # split_chr sep cs
      else (case split_chr sep cs of [] \<Rightarrow> [[c]] | w # ws \<Rightarrow> (c # w) # ws))"

text \<open>\<^verbatim>\<open>sep.join(parts)\<close> for a one-character separator.\<close>

fun join_chr :: "char \<Rightarrow> string list \<Rightarrow> string" where
  "join_chr sep [] = []"
| "join_chr sep [w] = w"
| "join_chr sep (w # v # ws) = w @ sep # join_chr sep (v # ws)"

text \<open>\<^verbatim>\<open>s.startswith(p)\<close>.\<close>

definition startswith :: "string \<Rightarrow> string \<Rightarrow> bool" where
  "startswith s p = prefix p s"

text \<open>\<^verbatim>\<open>s.find(pat)\<close>: the lowest index at which \<open>pat\<close> occurs, \<open>None\<close> for Python's -1.\<close>

fun str_find :: "string \<Rightarrow> string \<Rightarrow> nat option" where
  "str_find pat [] = (if pat = [] then Some 0 else None)"
| "str_find pat (c # cs) =
     (if startswith (c # cs) pat then Some 0 else map_option Suc (str_find pat cs))"

text \<open>\<^verbatim>\<open>pat in s\<close>.\<close>

definition str_in :: "string \<Rightarrow> string \<Rightarrow> bool" where
  "str_in pat s = (str_find pat s \<noteq> None)"

text \<open>\<^verbatim>\<open>s.split(pat, 1)\<close>: split at the first occurrence of \<open>pat\<close> only.\<close>

definition split_once :: "string \<Rightarrow> string \<Rightarrow> string list" where
  "split_once pat s =
     (case str_find pat s of
        None \<Rightarrow> [s]
      | Some i \<Rightarrow> [take i s, drop (i + length pat) s])"

text \<open>\<^verbatim>\<open>c.isdigit()\<close> on Latin-1: the ASCII digits and the superscripts two, three, one.\<close>

definition isdigit :: "char \<Rightarrow> bool" where
  "isdigit c =
     (let n = (of_char c :: nat)
      in (48 \<le> n \<and> n \<le> 57) \<or> n = 178 \<or> n = 179 \<or> n = 185)"

text \<open>\<^verbatim>\<open>c.isspace()\<close> on Latin-1: TAB to CR, FS to US, space, NEL and no-break space.\<close>

definition isspace :: "char \<Rightarrow> bool" where
  "isspace c =
     (let n = (of_char c :: nat)
      in (9 \<le> n \<and> n \<le> 13) \<or> (28 \<le> n \<and> n \<le> 32) \<or> n = 133 \<or> n = 160)"

text \<open>\<^verbatim>\<open>s.strip()\<close>: whitespace removed at both ends.\<close>

definition lstrip :: "string \<Rightarrow> string" where
  "lstrip s = dropWhile isspace s"

definition rstrip :: "string \<Rightarrow> string" where
  "rstrip s = rev (dropWhile isspace (rev s))"

definition strip :: "string \<Rightarrow> string" where
  "strip s = rstrip (lstrip s)"

text \<open>
  \<^verbatim>\<open>s.rstrip(chars)\<close>: removes trailing characters that are members of \<open>chars\<close>
  (a set of characters, not a suffix).
\<close>

definition rstrip_chars :: "string \<Rightarrow> string \<Rightarrow> string" where
  "rstrip_chars chars s = rev (dropWhile (\<lambda>c. c \<in> set chars) (rev s))"

text \<open>\<^verbatim>\<open>s.replace(old, new)\<close> for a one-character \<open>old\<close>.\<close>

definition replace_chr :: "char \<Rightarrow> string \<Rightarrow> string \<Rightarrow> string" where
  "replace_chr old new s = concat (map (\<lambda>c. if c = old then new else [c]) s)"

section \<open>link-list-v2.py: numeric-prefix stripping\<close>

text \<open>
  \<^verbatim>\<open>
  def clean_folder_name(name):
      if '. ' in name and name[0].isdigit():
          name = name.split('. ', 1)[1]
      return name
  \<close>
  \<^verbatim>\<open>and\<close> short-circuits, so \<^verbatim>\<open>name[0]\<close> is read only when \<^verbatim>\<open>'. '\<close> occurs.
\<close>

definition clean_folder_name :: "string \<Rightarrow> py_error + string" where
  "clean_folder_name name =
     (if \<not> str_in ''. '' name then Inr name
      else py_bind (py_index name 0) (\<lambda>c0.
        if isdigit c0 then py_index (split_once ''. '' name) 1
        else Inr name))"

text \<open>
  \<^verbatim>\<open>
  def parse_path_info(path):
      parts = path.split('/')
      if parts[0] == '.':
          parts = parts[1:]
      if len(parts) == 2:
          nama_proyek, nama_gambar = parts
          return nama_proyek, "", "", path
      if len(parts) == 3:
          nama_proyek, periode, nama_gambar = parts
          return nama_proyek, periode, "", path
      nama_proyek = parts[0]
      periode = parts[1]
      di_folder = parts[2]
      nama_di = clean_folder_name(di_folder)
      return nama_proyek, periode, nama_di, path
  \<close>
  Every subscript is a \<open>py_index\<close>, so a path with too few segments raises IndexError.
\<close>

definition strip_dot :: "string list \<Rightarrow> py_error + string list" where
  "strip_dot parts0 =
     py_bind (py_index parts0 0) (\<lambda>p0. Inr (if p0 = ''.'' then drop 1 parts0 else parts0))"

definition parse_path_info :: "string \<Rightarrow> py_error + (string \<times> string \<times> string \<times> string)" where
  "parse_path_info path =
     py_bind (strip_dot (split_chr CHR ''/'' path)) (\<lambda>parts.
       case parts of
         [nama_proyek, nama_gambar] \<Rightarrow> Inr (nama_proyek, [], [], path)
       | [nama_proyek, periode, nama_gambar] \<Rightarrow> Inr (nama_proyek, periode, [], path)
       | _ \<Rightarrow>
           py_bind (py_index parts 0) (\<lambda>nama_proyek.
           py_bind (py_index parts 1) (\<lambda>periode.
           py_bind (py_index parts 2) (\<lambda>di_folder.
           py_bind (clean_folder_name di_folder) (\<lambda>nama_di.
           Inr (nama_proyek, periode, nama_di, path))))))"

section \<open>link-list-new.py: marker search\<close>

text \<open>
  \<^verbatim>\<open>s.find(pat)\<close> as Python returns it (-1 when absent), and the slice \<^verbatim>\<open>s[i:]\<close>,
  where a negative \<open>i\<close> counts from the end.
\<close>

definition py_find :: "string \<Rightarrow> string \<Rightarrow> int" where
  "py_find pat s = (case str_find pat s of None \<Rightarrow> - 1 | Some i \<Rightarrow> int i)"

definition slice_from :: "string \<Rightarrow> int \<Rightarrow> string" where
  "slice_from s i = (if i < 0 then drop (nat (int (length s) + i)) s else drop (nat i) s)"

text \<open>
  The sub-unit extraction inside \<^verbatim>\<open>row_from_path\<close> (on \<^verbatim>\<open>folder_name = parts[2]\<close>):
  \<^verbatim>\<open>
  di_name = ""
  if "D.I" in folder_name:
      di_start = folder_name.find("D.I")
      di_name = folder_name[di_start:].split("/")[0].strip()
  \<close>
\<close>

definition di_name_of :: "string \<Rightarrow> py_error + string" where
  "di_name_of folder_name =
     (if str_in ''D.I'' folder_name
      then py_bind
             (py_index (split_chr CHR ''/'' (slice_from folder_name (py_find ''D.I'' folder_name))) 0)
             (\<lambda>w. Inr (strip w))
      else Inr [])"

text \<open>
  \<^verbatim>\<open>
  def row_from_path(path):
      parts = path.split('/')
      if not parts:
          return ["", "", "", ""]
      project_name = parts[0] if len(parts) > 0 else ""
      period = parts[1] if len(parts) > 1 else ""
      di_name = ""
      if len(parts) > 2:
          folder_name = parts[2]
          ...
      image_path = "./"+path
      return [project_name, period, di_name, image_path]
  \<close>
\<close>

definition row_from_path_new :: "string \<Rightarrow> py_error + string list" where
  "row_from_path_new path =
     (let parts = split_chr CHR ''/'' path in
      if parts = [] then Inr [[], [], [], []]
      else
        py_bind (if length parts > 0 then py_index parts 0 else Inr []) (\<lambda>project_name.
        py_bind (if length parts > 1 then py_index parts 1 else Inr []) (\<lambda>period.
        py_bind (if length parts > 2 then py_bind (py_index parts 2) di_name_of else Inr [])
          (\<lambda>di_name.
        Inr [project_name, period, di_name, ''./'' @ path]))))"

section \<open>link-list.py: fixed three-level rows, URL builder, extension test\<close>

text \<open>
  \<^verbatim>\<open>
  def row_from_path(path):
      parts = path.split(os.sep)
      if not parts:
          return ["", "", "", ""]
      filename = parts[-1]
      folders = parts[:-1]
      folder0 = folders[0] if len(folders) >= 1 else ""
      folder1 = folders[1] if len(folders) >= 2 else ""
      folder2 = os.sep.join(folders[2:]) if len(folders) >= 3 else ""
      return [folder0, folder1, folder2, filename]
  \<close>
  \<^verbatim>\<open>os.sep\<close> is the first argument of the model.
\<close>

definition py_last :: "'a list \<Rightarrow> py_error + 'a" where
  "py_last xs = (if xs = [] then Inl IndexError else Inr (last xs))"

definition row_from_path :: "char \<Rightarrow> string \<Rightarrow> py_error + string list" where
  "row_from_path sep path =
     (let parts = split_chr sep path in
      if parts = [] then Inr [[], [], [], []]
      else
        py_bind (py_last parts) (\<lambda>filename.
        let folders = butlast parts in
        py_bind (if length folders \<ge> 1 then py_index folders 0 else Inr []) (\<lambda>folder0.
        py_bind (if length folders \<ge> 2 then py_index folders 1 else Inr []) (\<lambda>folder1.
        let folder2 = (if length folders \<ge> 3 then join_chr sep (drop 2 folders) else [])
        in Inr [folder0, folder1, folder2, filename]))))"

text \<open>
  \<^verbatim>\<open>
  def encode_path(path):
      parts = path.split('/')
      encoded_parts = [part.replace(' ', '%20') for part in parts]
      return '/'.join(encoded_parts)

  def make_github_url(owner, repo, branch, path):
      encoded_path = encode_path(path)
      return f"https://raw.githubusercontent.com/{owner}/{repo}/refs/heads/{branch}/{encoded_path}"
  \<close>
  The same two functions stand in \<^verbatim>\<open>link-list-v2.py\<close>.
\<close>

definition encode_path :: "string \<Rightarrow> string" where
  "encode_path path =
     join_chr CHR ''/'' (map (replace_chr CHR '' '' ''%20'') (split_chr CHR ''/'' path))"

definition make_github_url :: "string \<Rightarrow> string \<Rightarrow> string \<Rightarrow> string \<Rightarrow> string" where
  "make_github_url owner repo branch path =
     ''https://raw.githubusercontent.com/'' @ owner @ ''/'' @ repo @ ''/refs/heads/'' @ branch
       @ ''/'' @ encode_path path"

text \<open>
  \<^verbatim>\<open>s.lower()\<close> on Latin-1: the ASCII capitals and the capitals 192 to 222 (but not the
  multiplication sign 215) move up by 32.
\<close>

definition lower_chr :: "char \<Rightarrow> char" where
  "lower_chr c =
     (let n = (of_char c :: nat)
      in if (65 \<le> n \<and> n \<le> 90) \<or> (192 \<le> n \<and> n \<le> 222 \<and> n \<noteq> 215)
         then char_of (n + 32) else c)"

definition lower :: "string \<Rightarrow> string" where
  "lower s = map lower_chr s"

text \<open>\<^verbatim>\<open>p.rfind(c)\<close>: the highest index of \<open>c\<close>, or -1.\<close>

fun rfind_chr :: "char \<Rightarrow> string \<Rightarrow> int" where
  "rfind_chr c [] = - 1"
| "rfind_chr c (x # xs) =
     (let r = rfind_chr c xs
      in if 0 \<le> r then r + 1 else if x = c then 0 else - 1)"

text \<open>
  \<^verbatim>\<open>os.path.splitext\<close> (posixpath: separator \<^verbatim>\<open>/\<close>, no alternative separator):
  \<^verbatim>\<open>
  sepIndex = p.rfind(sep)
  dotIndex = p.rfind(extsep)
  if dotIndex > sepIndex:
      # skip all leading dots
      filenameIndex = sepIndex + 1
      while filenameIndex < dotIndex:
          if p[filenameIndex:filenameIndex+1] != extsep:
              return p[:dotIndex], p[dotIndex:]
          filenameIndex += 1
  return p, p[:0]
  \<close>
  \<open>splitext_scan\<close> is the while loop: True when it returns from inside.
\<close>

function splitext_scan :: "string \<Rightarrow> nat \<Rightarrow> nat \<Rightarrow> bool" where
  "splitext_scan p filenameIndex dotIndex =
     (if filenameIndex < dotIndex
      then (if take 1 (drop filenameIndex p) \<noteq> ''.'' then True
            else splitext_scan p (Suc filenameIndex) dotIndex)
      else False)"
  by pat_completeness auto
termination
  by (relation "measure (\<lambda>(p, i, d). d - i)") auto

declare splitext_scan.simps [simp del]

definition splitext :: "string \<Rightarrow> string \<times> string" where
  "splitext p =
     (let sepIndex = rfind_chr CHR ''/'' p; dotIndex = rfind_chr CHR ''.'' p
      in if dotIndex > sepIndex \<and> splitext_scan p (nat (sepIndex + 1)) (nat dotIndex)
         then (take (nat dotIndex) p, drop (nat dotIndex) p)
         else (p, []))"

text \<open>
  \<^verbatim>\<open>
  ALLOWED_EXT = {".png", ".jpg", ".jpeg", ".gif", ".webp", ".bmp", ".tif", ".tiff", ".svg"}

  def is_image(filename):
      _, ext = os.path.splitext(filename.lower())
      return ext in ALLOWED_EXT
  \<close>
\<close>

definition ALLOWED_EXT :: "string set" where
  "ALLOWED_EXT =
     {''.png'', ''.jpg'', ''.jpeg'', ''.gif'', ''.webp'', ''.bmp'', ''.tif'', ''.tiff'', ''.svg''}"

definition is_image :: "string \<Rightarrow> bool" where
  "is_image filename = (snd (splitext (lower filename)) \<in> ALLOWED_EXT)"

section \<open>The environment: git and the file system\<close>

text \<open>
  \<^verbatim>\<open>subprocess.check_output\<close> returns the command's standard output, raises
  CalledProcessError when the command exits with a non-zero status, and raises
  FileNotFoundError when the executable cannot be started.
\<close>

datatype proc_result = Stdout string | NonZeroExit | NoExecutable

definition check_output :: "proc_result \<Rightarrow> py_error + string" where
  "check_output r =
     (case r of
        Stdout out \<Rightarrow> Inr out
      | NonZeroExit \<Rightarrow> Inl CalledProcessError
      | NoExecutable \<Rightarrow> Inl FileNotFoundError)"

text \<open>
  What a run reads from outside: the two git commands, the entries of the current
  directory, which paths are directories, and what \<^verbatim>\<open>os.walk(root)\<close> yields: for each
  directory below \<open>root\<close> its components relative to \<open>root\<close> and its file names.
\<close>

record world =
  git_remote :: proc_result
  git_branch :: proc_result
  listdir :: "string list"
  isdir :: "string \<Rightarrow> bool"
  walk :: "string \<Rightarrow> (string list \<times> string list) list"

text \<open>
  The parsing step of \<^verbatim>\<open>get_git_info\<close>; a tuple assignment with the wrong number of
  values raises ValueError.
  \<^verbatim>\<open>
  if "github.com" not in remote:
      raise ValueError("Not a GitHub repository")
  if remote.startswith("https"):
      _, _, _, owner, repo = remote.rstrip(".git").split("/")
  else:
      _, owner_repo = remote.split(":")
      owner, repo = owner_repo.rstrip(".git").split("/")
  \<close>
\<close>

definition owner_repo_of :: "string \<Rightarrow> py_error + (string \<times> string)" where
  "owner_repo_of remote =
     (if \<not> str_in ''github.com'' remote then Inl ValueError
      else if startswith remote ''https'' then
        (case split_chr CHR ''/'' (rstrip_chars ''.git'' remote) of
           [_, _, _, owner, repo] \<Rightarrow> Inr (owner, repo)
         | _ \<Rightarrow> Inl ValueError)
      else
        (case split_chr CHR '':'' remote of
           [_, owner_repo] \<Rightarrow>
             (case split_chr CHR ''/'' (rstrip_chars ''.git'' owner_repo) of
                [owner, repo] \<Rightarrow> Inr (owner, repo)
              | _ \<Rightarrow> Inl ValueError)
         | _ \<Rightarrow> Inl ValueError))"

text \<open>
  \<^verbatim>\<open>
  def get_git_info():
      try:
          remote = subprocess.check_output([...]).strip()
          ... (parsing step) ...
          branch = subprocess.check_output([...]).strip()
          return owner, repo, branch
      except subprocess.CalledProcessError:
          raise ValueError("Not in a git repository or git not installed")
  \<close>
\<close>

definition get_git_info :: "world \<Rightarrow> py_error + (string \<times> string \<times> string)" where
  "get_git_info w =
     (case
        py_bind (check_output (git_remote w)) (\<lambda>out.
        py_bind (owner_repo_of (strip out)) (\<lambda>(owner, repo).
        py_bind (check_output (git_branch w)) (\<lambda>out2.
        Inr (owner, repo, strip out2))))
      of
        Inl CalledProcessError \<Rightarrow> Inl ValueError
      | r \<Rightarrow> r)"

text \<open>
  \<^verbatim>\<open>
  def list_images(root_path):
      image_paths = []
      for dirpath, _, files in os.walk(root_path):
          for f in files:
              if is_image(f):
                  full = os.path.join(dirpath, f)
                  rel = os.path.relpath(full, root_path)
                  rel = rel.replace(os.sep, "/")
                  image_paths.append(rel)
      return sorted(image_paths)
  \<close>
  \<open>rel\<close> is the directory's components below the root and the file name, joined by \<^verbatim>\<open>/\<close>.
\<close>

definition list_images :: "world \<Rightarrow> string \<Rightarrow> string list" where
  "list_images w root_path =
     sort (concat (map (\<lambda>(dir, files).
        map (\<lambda>f. join_chr CHR ''/'' (dir @ [f])) (filter is_image files)) (walk w root_path)))"

definition scan_current_directory :: "world \<Rightarrow> string list" where
  "scan_current_directory w =
     sort (filter (\<lambda>item. isdir w item \<and> startswith item ''Oplah'') (listdir w))"

section \<open>link-list-v2.py: the run\<close>

text \<open>
  The first half of \<^verbatim>\<open>main\<close>: the paths to report, or the exit code of an early return.
  \<open>argv\<close> is the argument list after \<^verbatim>\<open>if not argv: argv = sys.argv[1:]\<close>.
  \<^verbatim>\<open>
  if not argv:
      folders = scan_current_directory()
      if not folders:
          return 1
      all_files = []
      for folder in folders:
          if not os.path.isdir(folder):
              continue
          files = list_images(folder)
          files = [f"./{folder}/{f}" for f in files]
          all_files.extend(files)
      files = all_files
  else:
      folder_path = argv[0]
      if not os.path.isdir(folder_path):
          return 2
      files = [f"./{folder_path}/{f}" for f in list_images(folder_path)]
  \<close>
\<close>

definition prefixed_images :: "world \<Rightarrow> string \<Rightarrow> string list" where
  "prefixed_images w folder = map (\<lambda>f. ''./'' @ folder @ ''/'' @ f) (list_images w folder)"

definition collect_files :: "world \<Rightarrow> string list \<Rightarrow> nat + string list" where
  "collect_files w argv =
     (case argv of
        [] \<Rightarrow>
          (let folders = scan_current_directory w in
           if folders = [] then Inl 1
           else Inr (concat (map (\<lambda>folder.
                  if \<not> isdir w folder then [] else prefixed_images w folder) folders)))
      | folder_path # _ \<Rightarrow>
          if \<not> isdir w folder_path then Inl 2
          else Inr (prefixed_images w folder_path))"

text \<open>
  The loop that writes the rows; \<open>g\<close> is \<open>None\<close> after \<^verbatim>\<open>owner = repo = branch = None\<close>.
  \<^verbatim>\<open>
  for path in files:
      nama_proyek, periode, nama_di, nama_gambar = parse_path_info(path)
      if owner and repo and branch:
          url = make_github_url(owner, repo, branch, path)
      else:
          url = ""
      writer.writerow([nama_proyek, periode, nama_di, nama_gambar, url])
  \<close>
\<close>

definition url_of :: "(string \<times> string \<times> string) option \<Rightarrow> string \<Rightarrow> string" where
  "url_of g path =
     (case g of
        None \<Rightarrow> []
      | Some (owner, repo, branch) \<Rightarrow>
          if owner \<noteq> [] \<and> repo \<noteq> [] \<and> branch \<noteq> []
          then make_github_url owner repo branch path else [])"

fun write_rows :: "(string \<times> string \<times> string) option \<Rightarrow> string list \<Rightarrow> py_error + string list list" where
  "write_rows g [] = Inr []"
| "write_rows g (path # rest) =
     py_bind (parse_path_info path) (\<lambda>(nama_proyek, periode, nama_di, nama_gambar).
     py_bind (write_rows g rest) (\<lambda>rows.
     Inr ([nama_proyek, periode, nama_di, nama_gambar, url_of g path] # rows)))"

definition csv_header :: "string list" where
  "csv_header = [''nama_proyek'', ''periode'', ''nama_di'', ''nama_gambar'', ''url'']"

text \<open>
  The run: \<open>Inl e\<close> is an exception that leaves \<^verbatim>\<open>main\<close> (the run aborts);
  \<open>Inr (code, csv)\<close> is the exit code and the rows of \<^verbatim>\<open>images.csv\<close> when it was written.
  \<^verbatim>\<open>
  try:
      owner, repo, branch = get_git_info()
  except ValueError as e:
      owner = repo = branch = None
  if not files:
      return 0
  with open(out_file, "w", ...) as fh:
      writer.writerow(["nama_proyek", "periode", "nama_di", "nama_gambar", "url"])
      for path in files: ...
  return 0
  \<close>
\<close>

definition main_v2 :: "world \<Rightarrow> string list \<Rightarrow> py_error + (nat \<times> string list list option)" where
  "main_v2 w argv =
     (case collect_files w argv of
        Inl code \<Rightarrow> Inr (code, None)
      | Inr files \<Rightarrow>
          py_bind
            (case get_git_info w of
               Inl ValueError \<Rightarrow> Inr None
             | Inl e \<Rightarrow> Inl e
             | Inr g \<Rightarrow> Inr (Some g))
            (\<lambda>g. if files = [] then Inr (0, None)
                 else py_bind (write_rows g files) (\<lambda>rows. Inr (0, Some (csv_header # rows)))))"


text \<open>Every path that \<open>collect_files\<close> returns is \<^verbatim>\<open>./\<close>, a folder, \<^verbatim>\<open>/\<close> and a relative path.\<close>

definition prefixed :: "string \<Rightarrow> bool" where
  "prefixed path \<longleftrightarrow> (\<exists>folder f. path = ''./'' @ folder @ ''/'' @ f)"

section \<open>Two environments for the examples\<close>

text \<open>
  A checkout of \<^verbatim>\<open>https://github.com/o/r.git\<close> on branch \<^verbatim>\<open>main\<close> whose current directory
  holds the folder \<^verbatim>\<open>Proj\<close> with the single file \<^verbatim>\<open>Proj/M3/1. D.I Foo/img.png\<close>; git prints
  its answers with a final newline. The second environment is the same directory on a
  machine where the \<^verbatim>\<open>git\<close> executable is missing.
\<close>

definition proj_world :: world where
  "proj_world =
     \<lparr> git_remote = Stdout (''https://github.com/o/r.git'' @ [CHR 0x0A]),
       git_branch = Stdout (''main'' @ [CHR 0x0A]),
       listdir = [''Proj''],
       isdir = (\<lambda>p. p = ''Proj''),
       walk = (\<lambda>root. if root = ''Proj''
                 then [([], []), ([''M3''], []), ([''M3'', ''1. D.I Foo''], [''img.png''])]
                 else []) \<rparr>"

definition no_git_world :: world where
  "no_git_world = proj_world \<lparr> git_remote := NoExecutable, git_branch := NoExecutable \<rparr>"

section \<open>Facts about the string primitives\<close>

lemma split_chr_nonempty: "split_chr sep s \<noteq> []"
  by (induction s) (auto split: list.splits)

lemma str_find_None_iff:
  "str_find pat s = None \<longleftrightarrow> (\<forall>i\<le>length s. \<not> prefix pat (drop i s))"
proof (induction s)
  case Nil
  then show ?case by (auto simp: startswith_def)
next
  case (Cons c cs)
  show ?case
  proof
    assume "str_find pat (c # cs) = None"
    then have a: "\<not> prefix pat (c # cs)" and b: "str_find pat cs = None"
      by (auto simp: startswith_def split: if_splits)
    from b Cons.IH have c: "\<forall>i\<le>length cs. \<not> prefix pat (drop i cs)" by simp
    show "\<forall>i\<le>length (c # cs). \<not> prefix pat (drop i (c # cs))"
    proof (intro allI impI)
      fix i assume "i \<le> length (c # cs)"
      then show "\<not> prefix pat (drop i (c # cs))"
        using a c by (cases i) auto
    qed
  next
    assume h: "\<forall>i\<le>length (c # cs). \<not> prefix pat (drop i (c # cs))"
    from h have a: "\<not> prefix pat (c # cs)" by (metis drop0 le0)
    have "\<forall>i\<le>length cs. \<not> prefix pat (drop i cs)"
    proof (intro allI impI)
      fix i assume "i \<le> length cs"
      then have "Suc i \<le> length (c # cs)" by simp
      with h have "\<not> prefix pat (drop (Suc i) (c # cs))" by blast
      then show "\<not> prefix pat (drop i cs)" by simp
    qed
    with Cons.IH have "str_find pat cs = None" by simp
    with a show "str_find pat (c # cs) = None" by (simp add: startswith_def)
  qed
qed

lemma str_find_Some:
  "str_find pat s = Some i \<Longrightarrow>
     i \<le> length s \<and> prefix pat (drop i s) \<and> (\<forall>j<i. \<not> prefix pat (drop j s))"
proof (induction s arbitrary: i)
  case Nil
  then show ?case by (auto split: if_splits)
next
  case (Cons c cs)
  show ?case
  proof (cases "startswith (c # cs) pat")
    case True
    with Cons.prems show ?thesis by (simp add: startswith_def)
  next
    case False
    with Cons.prems obtain k where k: "str_find pat cs = Some k" "i = Suc k"
      by auto
    from Cons.IH [OF k(1)] have ih:
      "k \<le> length cs" "prefix pat (drop k cs)" "\<forall>j<k. \<not> prefix pat (drop j cs)"
      by auto
    have "\<forall>j<i. \<not> prefix pat (drop j (c # cs))"
    proof (intro allI impI)
      fix j assume "j < i"
      then show "\<not> prefix pat (drop j (c # cs))"
        using False ih(3) k(2) by (cases j) (auto simp: startswith_def)
    qed
    with ih k show ?thesis by simp
  qed
qed

text \<open>The first occurrence determines \<open>str_find\<close>.\<close>

lemma str_find_first:
  assumes "s = pre @ pat @ post"
    and "\<forall>j<length pre. \<not> prefix pat (drop j s)"
  shows "str_find pat s = Some (length pre)"
proof (cases "str_find pat s")
  case None
  have "length pre \<le> length s" using assms(1) by simp
  with None have "\<not> prefix pat (drop (length pre) s)"
    unfolding str_find_None_iff by blast
  with assms(1) show ?thesis by simp
next
  case (Some i)
  from str_find_Some [OF Some]
  have i: "prefix pat (drop i s)" "\<forall>j<i. \<not> prefix pat (drop j s)" by auto
  have "prefix pat (drop (length pre) s)" using assms(1) by simp
  with i(2) have "\<not> length pre < i" by blast
  moreover from assms(2) i(1) have "\<not> i < length pre" by blast
  ultimately show ?thesis using Some by simp
qed

lemma str_in_iff: "str_in pat s \<longleftrightarrow> (\<exists>pre post. s = pre @ pat @ post)"
proof
  assume "str_in pat s"
  then obtain i where i: "str_find pat s = Some i" by (auto simp: str_in_def)
  from str_find_Some [OF i] have "prefix pat (drop i s)" by simp
  then obtain post where "drop i s = pat @ post" by (auto simp: prefix_def)
  then have "s = take i s @ pat @ post" by (metis append_take_drop_id)
  then show "\<exists>pre post. s = pre @ pat @ post" by blast
next
  assume "\<exists>pre post. s = pre @ pat @ post"
  then obtain pre post where s: "s = pre @ pat @ post" by blast
  have "str_find pat s \<noteq> None"
  proof
    assume "str_find pat s = None"
    moreover have "length pre \<le> length s" using s by simp
    ultimately have "\<not> prefix pat (drop (length pre) s)"
      unfolding str_find_None_iff by blast
    with s show False by simp
  qed
  then show "str_in pat s" by (simp add: str_in_def)
qed

lemma clean_general:
  assumes "s = pre @ ''. '' @ post"
    and "\<forall>j<length pre. \<not> prefix ''. '' (drop j s)"
    and "s = c # cs" and "isdigit c"
  shows "clean_folder_name s = Inr post"
proof -
  have f: "str_find ''. '' s = Some (length pre)"
    using assms(1,2) by (rule str_find_first)
  then have "str_in ''. '' s" by (simp add: str_in_def)
  moreover have "split_once ''. '' s = [take (length pre) s, post]"
    using f assms(1) by (simp add: split_once_def)
  ultimately show ?thesis
    using assms(3,4) by (simp add: clean_folder_name_def py_bind_def py_index_def)
qed

lemma clean_unchanged:
  assumes "\<not> ((\<exists>c cs. s = c # cs \<and> isdigit c) \<and> (\<exists>pre post. s = pre @ ''. '' @ post))"
  shows "clean_folder_name s = Inr s"
proof (cases "str_in ''. '' s")
  case False
  then show ?thesis by (simp add: clean_folder_name_def)
next
  case True
  then have ex: "\<exists>pre post. s = pre @ ''. '' @ post" by (simp only: str_in_iff)
  then obtain c cs where s: "s = c # cs" by (cases s) auto
  with assms ex have "\<not> isdigit c" by blast
  with True s show ?thesis
    by (simp add: clean_folder_name_def py_bind_def py_index_def)
qed

section \<open>Facts about splitting and the decomposers\<close>

lemma split_chr_no_sep: "w \<in> set (split_chr sep s) \<Longrightarrow> sep \<notin> set w"
proof (induction s arbitrary: w)
  case Nil
  then show ?case by simp
next
  case (Cons c cs)
  show ?case
  proof (cases "c = sep")
    case True
    with Cons show ?thesis by auto
  next
    case False
    obtain v vs where vs: "split_chr sep cs = v # vs"
      using split_chr_nonempty [of sep cs] by (cases "split_chr sep cs") auto
    with False Cons.prems have "w = c # v \<or> w \<in> set vs" by simp
    then show ?thesis
    proof
      assume "w = c # v"
      moreover have "sep \<notin> set v" using Cons.IH [of v] vs by simp
      ultimately show ?thesis using False by simp
    next
      assume "w \<in> set vs"
      then show ?thesis using Cons.IH [of w] vs by simp
    qed
  qed
qed

lemma split_chr_single: "sep \<notin> set s \<Longrightarrow> split_chr sep s = [s]"
  by (induction s) auto

lemma hd_split_chr: "hd (split_chr sep s) = takeWhile (\<lambda>c. c \<noteq> sep) s"
proof (induction s)
  case Nil
  then show ?case by simp
next
  case (Cons c cs)
  then show ?case
    using split_chr_nonempty [of sep cs]
    by (cases "split_chr sep cs") auto
qed

lemma split_chr_dot_slash:
  "split_chr CHR ''/'' (''./'' @ rest) = ''.'' # split_chr CHR ''/'' rest"
  by simp

lemma strip_dot_split:
  assumes "path \<noteq> ''.''"
  shows "strip_dot (split_chr CHR ''/'' path) =
         Inr (split_chr CHR ''/'' (if prefix ''./'' path then drop 2 path else path))"
proof (cases "prefix ''./'' path")
  case True
  then obtain rest where "path = ''./'' @ rest" by (auto simp: prefix_def)
  then show ?thesis
    by (simp add: strip_dot_def py_bind_def py_index_def)
next
  case False
  have ne: "split_chr CHR ''/'' path \<noteq> []" by (rule split_chr_nonempty)
  have "hd (split_chr CHR ''/'' path) \<noteq> ''.''"
  proof
    assume "hd (split_chr CHR ''/'' path) = ''.''"
    then have tw: "takeWhile (\<lambda>c. c \<noteq> CHR ''/'') path = ''.''" by (simp add: hd_split_chr)
    then obtain rest where p: "path = CHR ''.'' # rest"
      by (cases path) (auto split: if_splits)
    with tw have "takeWhile (\<lambda>c. c \<noteq> CHR ''/'') rest = []" by simp
    then have "rest = [] \<or> hd rest = CHR ''/''"
      by (cases rest) (auto split: if_splits)
    then show False
    proof
      assume "rest = []" with p assms show False by simp
    next
      assume h: "hd rest = CHR ''/''"
      show False
      proof (cases rest)
        case Nil
        with p assms show False by simp
      next
        case (Cons r rs)
        with h p have "path = ''./'' @ rs" by simp
        with False show False by simp
      qed
    qed
  qed
  with ne False show ?thesis
    by (cases "split_chr CHR ''/'' path") (auto simp: strip_dot_def py_bind_def py_index_def)
qed

lemma parse_path_info_two:
  "strip_dot (split_chr CHR ''/'' path) = Inr [a, b] \<Longrightarrow> parse_path_info path = Inr (a, [], [], path)"
  by (simp add: parse_path_info_def py_bind_def)

lemma parse_path_info_three:
  "strip_dot (split_chr CHR ''/'' path) = Inr [a, b, c] \<Longrightarrow> parse_path_info path = Inr (a, b, [], path)"
  by (simp add: parse_path_info_def py_bind_def)

lemma length2E: "length xs = 2 \<Longrightarrow> xs = [xs ! 0, xs ! 1]"
  by (cases xs; cases "tl xs"; cases "tl (tl xs)") auto

lemma length3E: "length xs = 3 \<Longrightarrow> xs = [xs ! 0, xs ! 1, xs ! 2]"
  by (cases xs; cases "tl xs"; cases "tl (tl xs)"; cases "tl (tl (tl xs))") auto

lemma v2_part:
  fixes path :: string
  defines "segs \<equiv> split_chr CHR ''/'' (if prefix ''./'' path then drop 2 path else path)"
  shows "(length segs = 2 \<longrightarrow> parse_path_info path = Inr (segs ! 0, [], [], path)) \<and>
         (length segs = 3 \<longrightarrow> parse_path_info path = Inr (segs ! 0, segs ! 1, [], path))"
proof (cases "path = ''.''")
  case True
  then show ?thesis by (simp add: segs_def)
next
  case False
  from strip_dot_split [OF False]
  have sd: "strip_dot (split_chr CHR ''/'' path) = Inr segs" by (simp add: segs_def)
  show ?thesis
  proof (intro conjI impI)
    assume "length segs = 2"
    then have "segs = [segs ! 0, segs ! 1]" by (rule length2E)
    with sd have "strip_dot (split_chr CHR ''/'' path) = Inr [segs ! 0, segs ! 1]" by simp
    then show "parse_path_info path = Inr (segs ! 0, [], [], path)" by (rule parse_path_info_two)
  next
    assume "length segs = 3"
    then have "segs = [segs ! 0, segs ! 1, segs ! 2]" by (rule length3E)
    with sd have "strip_dot (split_chr CHR ''/'' path) = Inr [segs ! 0, segs ! 1, segs ! 2]" by simp
    then show "parse_path_info path = Inr (segs ! 0, segs ! 1, [], path)"
      by (rule parse_path_info_three)
  qed
qed

lemma not_isspace_D [simp]: "\<not> isspace CHR ''D''" by (simp add: isspace_def)
lemma not_isspace_I [simp]: "\<not> isspace CHR ''I''" by (simp add: isspace_def)

lemma rstrip_keeps:
  assumes "a \<noteq> []" and "\<not> isspace (last a)"
  shows "\<exists>r. rstrip (a @ b) = a @ r"
proof (cases "\<forall>x\<in>set b. isspace x")
  case True
  then have "dropWhile isspace (rev b @ rev a) = dropWhile isspace (rev a)"
    by (intro dropWhile_append2) simp
  moreover have "dropWhile isspace (rev a) = rev a"
    using assms by (cases "rev a") (auto simp: last_rev hd_rev)
  ultimately show ?thesis by (simp add: rstrip_def)
next
  case False
  then obtain x where "x \<in> set (rev b)" "\<not> isspace x" by auto
  then have "dropWhile isspace (rev b @ rev a) = dropWhile isspace (rev b) @ rev a"
    by (rule dropWhile_append1)
  then show ?thesis by (simp add: rstrip_def)
qed

lemma strip_marker: "\<exists>r. strip (''D.I'' @ post) = ''D.I'' @ r"
proof -
  have "lstrip (''D.I'' @ post) = ''D.I'' @ post" by (simp add: lstrip_def)
  moreover have "\<exists>r. rstrip (''D.I'' @ post) = ''D.I'' @ r"
    by (rule rstrip_keeps) simp_all
  ultimately show ?thesis by (simp add: strip_def)
qed

lemma di_name_of_found:
  assumes "seg = pre @ ''D.I'' @ post"
    and "\<forall>j<length pre. \<not> prefix ''D.I'' (drop j seg)"
    and "CHR ''/'' \<notin> set seg"
  shows "di_name_of seg = Inr (strip (''D.I'' @ post))"
proof -
  have f: "str_find ''D.I'' seg = Some (length pre)"
    using assms(1,2) by (rule str_find_first)
  then have "str_in ''D.I'' seg" by (simp add: str_in_def)
  moreover have "slice_from seg (py_find ''D.I'' seg) = ''D.I'' @ post"
    using f assms(1) by (simp add: slice_from_def py_find_def)
  moreover have "split_chr CHR ''/'' (''D.I'' @ post) = [''D.I'' @ post]"
    using assms(1,3) by (intro split_chr_single) simp
  ultimately show ?thesis
    by (simp add: di_name_of_def py_bind_def py_index_def)
qed

lemma di_name_of_absent:
  "\<not> (\<exists>pre post. seg = pre @ ''D.I'' @ post) \<Longrightarrow> di_name_of seg = Inr []"
  by (simp add: di_name_of_def str_in_iff)

text \<open>Whatever the folder name, the extraction succeeds, and a non-empty result starts with the marker.\<close>

lemma di_name_of_shape:
  "\<exists>d. di_name_of seg = Inr d \<and> (d = [] \<or> prefix ''D.I'' d) \<and> (d = [] \<longleftrightarrow> \<not> str_in ''D.I'' seg)"
proof (cases "str_in ''D.I'' seg")
  case False
  then show ?thesis by (simp add: di_name_of_def)
next
  case True
  then obtain i where i: "str_find ''D.I'' seg = Some i" by (auto simp: str_in_def)
  from str_find_Some [OF i] obtain post where post: "drop i seg = ''D.I'' @ post"
    by (auto simp: prefix_def)
  have sl: "slice_from seg (py_find ''D.I'' seg) = ''D.I'' @ post"
    using i post by (simp add: slice_from_def py_find_def)
  have "hd (split_chr CHR ''/'' (''D.I'' @ post)) = ''D.I'' @ takeWhile (\<lambda>c. c \<noteq> CHR ''/'') post"
    unfolding hd_split_chr by simp
  moreover have "split_chr CHR ''/'' (''D.I'' @ post) \<noteq> []" by (rule split_chr_nonempty)
  ultimately have ix: "py_index (split_chr CHR ''/'' (''D.I'' @ post)) 0 =
      Inr (''D.I'' @ takeWhile (\<lambda>c. c \<noteq> CHR ''/'') post)"
    by (cases "split_chr CHR ''/'' (''D.I'' @ post)") (auto simp: py_index_def)
  obtain r where r: "strip (''D.I'' @ takeWhile (\<lambda>c. c \<noteq> CHR ''/'') post) = ''D.I'' @ r"
    using strip_marker by blast
  have "di_name_of seg = Inr (''D.I'' @ r)"
    using True sl ix r by (simp add: di_name_of_def py_bind_def)
  with True show ?thesis by simp
qed

lemma row_from_path_new_short1:
  "split_chr CHR ''/'' path = [a] \<Longrightarrow> row_from_path_new path = Inr [a, [], [], ''./'' @ path]"
  by (simp add: row_from_path_new_def py_bind_def py_index_def)

lemma row_from_path_new_short2:
  "split_chr CHR ''/'' path = [a, b] \<Longrightarrow> row_from_path_new path = Inr [a, b, [], ''./'' @ path]"
  by (simp add: row_from_path_new_def py_bind_def py_index_def)

lemma row_from_path_new_long:
  assumes "split_chr CHR ''/'' path = a # b # c # rest" and "di_name_of c = Inr d"
  shows "row_from_path_new path = Inr [a, b, d, ''./'' @ path]"
  using assms by (simp add: row_from_path_new_def py_bind_def py_index_def)

lemma row_from_path_new_total:
  "\<exists>p q d. row_from_path_new path = Inr [p, q, d, ''./'' @ path] \<and> (d = [] \<or> prefix ''D.I'' d)"
proof -
  obtain a r1 where s1: "split_chr CHR ''/'' path = a # r1"
    using split_chr_nonempty [of "CHR ''/''" path] by (cases "split_chr CHR ''/'' path") auto
  show ?thesis
  proof (cases r1)
    case Nil
    with s1 show ?thesis using row_from_path_new_short1 by simp
  next
    case (Cons b r2)
    show ?thesis
    proof (cases r2)
      case Nil
      with s1 Cons show ?thesis using row_from_path_new_short2 by simp
    next
      case (Cons c r3)
      obtain d where d: "di_name_of c = Inr d" "d = [] \<or> prefix ''D.I'' d"
        using di_name_of_shape [of c] by blast
      from s1 \<open>r1 = b # r2\<close> Cons have "split_chr CHR ''/'' path = a # b # c # r3" by simp
      from row_from_path_new_long [OF this d(1)] d(2) show ?thesis by blast
    qed
  qed
qed

lemmas eval_defs = clean_folder_name_def str_in_def startswith_def py_bind_def py_index_def
  split_once_def isdigit_def parse_path_info_def strip_dot_def di_name_of_def py_find_def
  slice_from_def strip_def lstrip_def rstrip_def isspace_def row_from_path_new_def
  row_from_path_def py_last_def

lemma length_ge4E:
  assumes "4 \<le> length xs"
  obtains a b c e rest where "xs = a # b # c # e # rest"
  using assms
  by (cases xs; cases "tl xs"; cases "tl (tl xs)"; cases "tl (tl (tl xs))") auto

section \<open>Facts about the URL encoding\<close>

lemma join_chr_append_head: "join_chr sep ((a @ w) # rest) = a @ join_chr sep (w # rest)"
  by (cases rest) simp_all

lemma replace_chr_Cons:
  "replace_chr old new (c # cs) = (if c = old then new else [c]) @ replace_chr old new cs"
  by (simp add: replace_chr_def)

lemma replace_chr_Nil: "replace_chr old new [] = []"
  by (simp add: replace_chr_def)

lemma join_map_replace_split:
  assumes "old \<noteq> sep"
  shows "join_chr sep (map (replace_chr old new) (split_chr sep p)) = replace_chr old new p"
proof (induction p)
  case Nil
  show ?case by (simp add: replace_chr_Nil)
next
  case (Cons c cs)
  obtain w ws where sp: "split_chr sep cs = w # ws"
    using split_chr_nonempty [of sep cs] by (cases "split_chr sep cs") auto
  show ?case
  proof (cases "c = sep")
    case True
    with assms have "c \<noteq> old" by simp
    with True sp Cons.IH show ?thesis by (simp add: replace_chr_Cons replace_chr_Nil)
  next
    case False
    have "join_chr sep (map (replace_chr old new) (split_chr sep (c # cs)))
        = join_chr sep (((if c = old then new else [c]) @ replace_chr old new w)
            # map (replace_chr old new) ws)"
      using False sp by (simp add: replace_chr_Cons)
    also have "\<dots> = (if c = old then new else [c])
        @ join_chr sep (map (replace_chr old new) (split_chr sep cs))"
      unfolding join_chr_append_head using sp by simp
    also have "\<dots> = replace_chr old new (c # cs)"
      using Cons.IH by (simp add: replace_chr_Cons)
    finally show ?thesis .
  qed
qed

lemma split_chr_append_nosep:
  assumes "sep \<notin> set a"
  shows "split_chr sep (a @ s) = (a @ hd (split_chr sep s)) # tl (split_chr sep s)"
  using assms
proof (induction a)
  case Nil
  then show ?case using split_chr_nonempty [of sep s] by simp
next
  case (Cons c a)
  then show ?case by auto
qed

lemma split_replace_chr:
  assumes "old \<noteq> sep" and "sep \<notin> set new"
  shows "split_chr sep (replace_chr old new p) = map (replace_chr old new) (split_chr sep p)"
proof (induction p)
  case Nil
  show ?case by (simp add: replace_chr_Nil)
next
  case (Cons c cs)
  obtain w ws where sp: "split_chr sep cs = w # ws"
    using split_chr_nonempty [of sep cs] by (cases "split_chr sep cs") auto
  show ?case
  proof (cases "c = sep")
    case True
    with assms have "c \<noteq> old" by simp
    with True Cons.IH show ?thesis by (simp add: replace_chr_Cons replace_chr_Nil)
  next
    case False
    have nosep: "sep \<notin> set (if c = old then new else [c])"
      using False assms(2) by auto
    have "split_chr sep (replace_chr old new (c # cs))
        = ((if c = old then new else [c]) @ hd (split_chr sep (replace_chr old new cs)))
          # tl (split_chr sep (replace_chr old new cs))"
      unfolding replace_chr_Cons using nosep by (rule split_chr_append_nosep)
    also have "\<dots> = ((if c = old then new else [c]) @ replace_chr old new w)
          # map (replace_chr old new) ws"
      using Cons.IH sp by simp
    also have "\<dots> = map (replace_chr old new) (split_chr sep (c # cs))"
      using False sp by (simp add: replace_chr_Cons)
    finally show ?thesis .
  qed
qed

section \<open>Facts about the extension test\<close>

lemma rfind_chr_ge: "- 1 \<le> rfind_chr c s"
  by (induction s) (auto simp: Let_def)

lemma rfind_chr_absent: "c \<notin> set s \<Longrightarrow> rfind_chr c s = - 1"
  by (induction s) (auto simp: Let_def)

lemma rfind_chr_last_occurrence:
  "c \<notin> set e \<Longrightarrow> rfind_chr c (stem @ c # e) = int (length stem)"
proof (induction stem)
  case Nil
  then show ?case by (simp add: rfind_chr_absent)
next
  case (Cons x stem)
  then show ?case by (simp add: Let_def)
qed

lemma splitext_scan_iff:
  "splitext_scan p i d \<longleftrightarrow> (\<exists>k. i \<le> k \<and> k < d \<and> take 1 (drop k p) \<noteq> ''.'')"
proof (induction p i d rule: splitext_scan.induct)
  case (1 p i d)
  show ?case
  proof (cases "i < d")
    case False
    then show ?thesis by (subst splitext_scan.simps) auto
  next
    case True
    show ?thesis
    proof (cases "take 1 (drop i p) \<noteq> ''.''")
      case t: True
      with True show ?thesis by (subst splitext_scan.simps) auto
    next
      case f: False
      have "splitext_scan p i d = splitext_scan p (Suc i) d"
        using True f by (subst splitext_scan.simps) simp
      also have "\<dots> \<longleftrightarrow> (\<exists>k. Suc i \<le> k \<and> k < d \<and> take 1 (drop k p) \<noteq> ''.'')"
        using "1.IH" True f by simp
      also have "\<dots> \<longleftrightarrow> (\<exists>k. i \<le> k \<and> k < d \<and> take 1 (drop k p) \<noteq> ''.'')"
      proof
        assume "\<exists>k. Suc i \<le> k \<and> k < d \<and> take 1 (drop k p) \<noteq> ''.''"
        then show "\<exists>k. i \<le> k \<and> k < d \<and> take 1 (drop k p) \<noteq> ''.''"
          using Suc_leD by blast
      next
        assume "\<exists>k. i \<le> k \<and> k < d \<and> take 1 (drop k p) \<noteq> ''.''"
        then obtain k where k: "i \<le> k" "k < d" "take 1 (drop k p) \<noteq> ''.''" by blast
        with f have "k \<noteq> i" by auto
        with k(1) have "Suc i \<le> k" by simp
        with k show "\<exists>k. Suc i \<le> k \<and> k < d \<and> take 1 (drop k p) \<noteq> ''.''" by blast
      qed
      finally show ?thesis .
    qed
  qed
qed

lemma take1_drop_stem:
  assumes "k < length stem"
  shows "take 1 (drop k (stem @ rest)) = [stem ! k]"
proof -
  have "drop k stem = stem ! k # drop (Suc k) stem"
    using assms by (simp add: Cons_nth_drop_Suc)
  then have "drop k (stem @ rest) = stem ! k # (drop (Suc k) stem @ rest)"
    using assms by simp
  then show ?thesis by simp
qed

lemma scan_stem:
  "splitext_scan (stem @ CHR ''.'' # e) 0 (length stem) \<longleftrightarrow> (\<exists>c\<in>set stem. c \<noteq> CHR ''.'')"
proof
  assume "splitext_scan (stem @ CHR ''.'' # e) 0 (length stem)"
  then obtain k where k: "k < length stem" "take 1 (drop k (stem @ CHR ''.'' # e)) \<noteq> ''.''"
    unfolding splitext_scan_iff by blast
  from k(2) have "[stem ! k] \<noteq> ''.''" unfolding take1_drop_stem [OF k(1)] .
  then have "stem ! k \<noteq> CHR ''.''" by simp
  with k(1) show "\<exists>c\<in>set stem. c \<noteq> CHR ''.''" using nth_mem by blast
next
  assume "\<exists>c\<in>set stem. c \<noteq> CHR ''.''"
  then obtain k where k: "k < length stem" "stem ! k \<noteq> CHR ''.''"
    by (auto simp: in_set_conv_nth)
  then have "take 1 (drop k (stem @ CHR ''.'' # e)) \<noteq> ''.''"
    unfolding take1_drop_stem [OF k(1)] by simp
  with k(1) show "splitext_scan (stem @ CHR ''.'' # e) 0 (length stem)"
    unfolding splitext_scan_iff by blast
qed

lemma splitext_no_dot:
  "CHR ''.'' \<notin> set p \<Longrightarrow> splitext p = (p, [])"
  using rfind_chr_ge [of "CHR ''/''" p]
  by (simp add: splitext_def rfind_chr_absent Let_def)

lemma splitext_filename:
  assumes "CHR ''/'' \<notin> set (stem @ CHR ''.'' # e)" and "CHR ''.'' \<notin> set e"
  shows "splitext (stem @ CHR ''.'' # e) =
         (if \<exists>c\<in>set stem. c \<noteq> CHR ''.'' then (stem, CHR ''.'' # e)
          else (stem @ CHR ''.'' # e, []))"
proof -
  have s: "rfind_chr CHR ''/'' (stem @ CHR ''.'' # e) = - 1"
    using assms(1) by (rule rfind_chr_absent)
  have d: "rfind_chr CHR ''.'' (stem @ CHR ''.'' # e) = int (length stem)"
    using assms(2) by (rule rfind_chr_last_occurrence)
  show ?thesis
    unfolding splitext_def s d Let_def using scan_stem [of stem e] by simp
qed

lemma of_char_lower_chr:
  "(of_char (lower_chr c) :: nat) =
     (if (65 \<le> (of_char c :: nat) \<and> (of_char c :: nat) \<le> 90) \<or>
         (192 \<le> (of_char c :: nat) \<and> (of_char c :: nat) \<le> 222 \<and> (of_char c :: nat) \<noteq> 215)
      then of_char c + 32 else of_char c)"
proof -
  have "(of_char c :: nat) \<le> 222 \<Longrightarrow> (of_char c + 32) mod 256 = (of_char c + 32 :: nat)"
    by simp
  then show ?thesis by (auto simp: lower_chr_def Let_def)
qed

lemma lower_chr_fixes:
  assumes "(of_char x :: nat) < 65"
  shows "lower_chr c = x \<longleftrightarrow> c = x"
proof
  assume "c = x"
  with assms show "lower_chr c = x" by (simp add: lower_chr_def Let_def)
next
  assume h: "lower_chr c = x"
  then have "(of_char (lower_chr c) :: nat) < 65" using assms by simp
  then have "\<not> ((65 \<le> (of_char c :: nat) \<and> (of_char c :: nat) \<le> 90) \<or>
         (192 \<le> (of_char c :: nat) \<and> (of_char c :: nat) \<le> 222 \<and> (of_char c :: nat) \<noteq> 215))"
    unfolding of_char_lower_chr by (auto split: if_splits)
  then have "lower_chr c = c" unfolding lower_chr_def Let_def by (rule if_not_P)
  with h show "c = x" by simp
qed

lemma lower_chr_dot: "lower_chr c = CHR ''.'' \<longleftrightarrow> c = CHR ''.''"
  by (rule lower_chr_fixes) simp

lemma lower_chr_slash: "lower_chr c = CHR ''/'' \<longleftrightarrow> c = CHR ''/''"
  by (rule lower_chr_fixes) simp

lemma lower_set_fixes:
  assumes "(of_char x :: nat) < 65"
  shows "x \<in> set (lower s) \<longleftrightarrow> x \<in> set s"
proof
  assume "x \<in> set (lower s)"
  then obtain c where c: "c \<in> set s" "lower_chr c = x" by (auto simp: lower_def)
  from c(2) have "c = x" unfolding lower_chr_fixes [OF assms] .
  with c(1) show "x \<in> set s" by simp
next
  assume "x \<in> set s"
  moreover have "lower_chr x = x" unfolding lower_chr_fixes [OF assms] ..
  ultimately show "x \<in> set (lower s)" by (force simp: lower_def)
qed

lemma lower_set_dot: "CHR ''.'' \<in> set (lower s) \<longleftrightarrow> CHR ''.'' \<in> set s"
  by (rule lower_set_fixes) simp

lemma lower_set_slash: "CHR ''/'' \<in> set (lower s) \<longleftrightarrow> CHR ''/'' \<in> set s"
  by (rule lower_set_fixes) simp

lemma lower_nondot: "(\<exists>c\<in>set (lower s). c \<noteq> CHR ''.'') \<longleftrightarrow> (\<exists>c\<in>set s. c \<noteq> CHR ''.'')"
proof
  assume "\<exists>c\<in>set (lower s). c \<noteq> CHR ''.''"
  then obtain c where c: "c \<in> set s" "lower_chr c \<noteq> CHR ''.''" by (auto simp: lower_def)
  have "c \<noteq> CHR ''.''"
  proof
    assume "c = CHR ''.''"
    then have "lower_chr c = CHR ''.''" by (rule lower_chr_dot [THEN iffD2])
    with c(2) show False by simp
  qed
  with c(1) show "\<exists>c\<in>set s. c \<noteq> CHR ''.''" by (rule bexI [rotated])
next
  assume "\<exists>c\<in>set s. c \<noteq> CHR ''.''"
  then obtain c where c: "c \<in> set s" "c \<noteq> CHR ''.''" by (rule bexE)
  have "lower_chr c \<noteq> CHR ''.''"
  proof
    assume "lower_chr c = CHR ''.''"
    then have "c = CHR ''.''" by (rule lower_chr_dot [THEN iffD1])
    with c(2) show False by simp
  qed
  moreover from c(1) have "lower_chr c \<in> set (lower s)" by (simp add: lower_def)
  ultimately show "\<exists>c\<in>set (lower s). c \<noteq> CHR ''.''" by (rule bexI)
qed

lemma lower_append_dot: "lower (stem @ CHR ''.'' # e) = lower stem @ CHR ''.'' # lower e"
proof -
  have "lower_chr CHR ''.'' = CHR ''.''" by (rule lower_chr_dot [THEN iffD2]) (rule refl)
  then show ?thesis by (simp add: lower_def)
qed

lemma lower_eq_append_dot:
  assumes "lower f = stem' @ CHR ''.'' # e'"
  obtains stem e where "f = stem @ CHR ''.'' # e" "lower stem = stem'" "lower e = e'"
proof -
  from assms have "map lower_chr f = stem' @ CHR ''.'' # e'" by (simp add: lower_def)
  then obtain stem r where f: "f = stem @ r" and s: "map lower_chr stem = stem'"
    and r: "map lower_chr r = CHR ''.'' # e'"
    by (auto simp: map_eq_append_conv)
  from r obtain x e where r2: "r = x # e" and x: "lower_chr x = CHR ''.''"
    and e: "map lower_chr e = e'"
    by (auto simp: map_eq_Cons_conv)
  from x have "x = CHR ''.''" by (simp add: lower_chr_dot)
  with f r2 s e show ?thesis using that by (simp add: lower_def)
qed

lemma ALLOWED_EXT_image:
  "ALLOWED_EXT = (#) CHR ''.'' `
     {''png'', ''jpg'', ''jpeg'', ''gif'', ''webp'', ''bmp'', ''tif'', ''tiff'', ''svg''}"
  unfolding ALLOWED_EXT_def image_insert image_empty by (rule refl)

lemma splitext_snd_filename:
  assumes "CHR ''/'' \<notin> set g"
  shows "snd (splitext g) \<in> ALLOWED_EXT \<longleftrightarrow>
         (\<exists>stem e. g = stem @ CHR ''.'' # e \<and> CHR ''.'' \<notin> set e \<and>
            (\<exists>c\<in>set stem. c \<noteq> CHR ''.'') \<and> CHR ''.'' # e \<in> ALLOWED_EXT)"
proof
  assume a: "snd (splitext g) \<in> ALLOWED_EXT"
  have ne: "[] \<notin> ALLOWED_EXT" by (simp add: ALLOWED_EXT_def)
  have "CHR ''.'' \<in> set g"
  proof (rule ccontr)
    assume "CHR ''.'' \<notin> set g"
    then have "splitext g = (g, [])" by (rule splitext_no_dot)
    with a ne show False by simp
  qed
  then obtain stem e where g: "g = stem @ CHR ''.'' # e" and e: "CHR ''.'' \<notin> set e"
    using split_list_last [of "CHR ''.''" g] by blast
  from assms g have "CHR ''/'' \<notin> set (stem @ CHR ''.'' # e)" by simp
  from splitext_filename [OF this e] g
  have sx: "splitext g = (if \<exists>c\<in>set stem. c \<noteq> CHR ''.'' then (stem, CHR ''.'' # e) else (g, []))"
    by simp
  have nd: "\<exists>c\<in>set stem. c \<noteq> CHR ''.''"
  proof (rule ccontr)
    assume "\<not> (\<exists>c\<in>set stem. c \<noteq> CHR ''.'')"
    with sx have "splitext g = (g, [])" by simp
    with a ne show False by simp
  qed
  with sx a have "CHR ''.'' # e \<in> ALLOWED_EXT" by simp
  with g e nd show "\<exists>stem e. g = stem @ CHR ''.'' # e \<and> CHR ''.'' \<notin> set e \<and>
            (\<exists>c\<in>set stem. c \<noteq> CHR ''.'') \<and> CHR ''.'' # e \<in> ALLOWED_EXT"
    by blast
next
  assume "\<exists>stem e. g = stem @ CHR ''.'' # e \<and> CHR ''.'' \<notin> set e \<and>
            (\<exists>c\<in>set stem. c \<noteq> CHR ''.'') \<and> CHR ''.'' # e \<in> ALLOWED_EXT"
  then obtain stem e where g: "g = stem @ CHR ''.'' # e" and e: "CHR ''.'' \<notin> set e"
    and nd: "\<exists>c\<in>set stem. c \<noteq> CHR ''.''" and al: "CHR ''.'' # e \<in> ALLOWED_EXT"
    by blast
  from assms g have "CHR ''/'' \<notin> set (stem @ CHR ''.'' # e)" by simp
  from splitext_filename [OF this e] g nd
  have "splitext g = (stem, CHR ''.'' # e)" by simp
  with al show "snd (splitext g) \<in> ALLOWED_EXT" by simp
qed

lemma is_image_filename_gen:
  assumes "CHR ''/'' \<notin> set f" and E: "ALLOWED_EXT = (#) CHR ''.'' ` E"
  shows "is_image f \<longleftrightarrow>
     (\<exists>stem e. f = stem @ ''.'' @ e \<and> CHR ''.'' \<notin> set e \<and> (\<exists>c\<in>set stem. c \<noteq> CHR ''.'') \<and>
        lower e \<in> E)"
proof -
  have ns: "CHR ''/'' \<notin> set (lower f)" using assms(1) by (simp add: lower_set_slash)
  have mem: "\<And>e. CHR ''.'' # e \<in> ALLOWED_EXT \<longleftrightarrow> e \<in> E" unfolding E by auto
  show ?thesis
  proof
    assume "is_image f"
    then have "snd (splitext (lower f)) \<in> ALLOWED_EXT" by (simp add: is_image_def)
    then obtain stem' e' where g: "lower f = stem' @ CHR ''.'' # e'"
      and e': "CHR ''.'' \<notin> set e'" and nd': "\<exists>c\<in>set stem'. c \<noteq> CHR ''.''"
      and al: "CHR ''.'' # e' \<in> ALLOWED_EXT"
      unfolding splitext_snd_filename [OF ns] by blast
    from g obtain stem e where f: "f = stem @ CHR ''.'' # e"
      and s: "lower stem = stem'" and e: "lower e = e'"
      by (rule lower_eq_append_dot)
    from e' e have "CHR ''.'' \<notin> set (lower e)" by simp
    then have 1: "CHR ''.'' \<notin> set e" unfolding lower_set_dot .
    from nd' s have "\<exists>c\<in>set (lower stem). c \<noteq> CHR ''.''" by simp
    then have 2: "\<exists>c\<in>set stem. c \<noteq> CHR ''.''" unfolding lower_nondot .
    from al e have 3: "lower e \<in> E" by (simp add: mem)
    from f have "f = stem @ ''.'' @ e" by simp
    with 1 2 3 show "\<exists>stem e. f = stem @ ''.'' @ e \<and> CHR ''.'' \<notin> set e \<and>
        (\<exists>c\<in>set stem. c \<noteq> CHR ''.'') \<and> lower e \<in> E"
      by blast
  next
    assume "\<exists>stem e. f = stem @ ''.'' @ e \<and> CHR ''.'' \<notin> set e \<and>
        (\<exists>c\<in>set stem. c \<noteq> CHR ''.'') \<and> lower e \<in> E"
    then obtain stem e where f: "f = stem @ ''.'' @ e" and 1: "CHR ''.'' \<notin> set e"
      and 2: "\<exists>c\<in>set stem. c \<noteq> CHR ''.''"
      and 3: "lower e \<in> E"
      by blast
    from f have g: "lower f = lower stem @ CHR ''.'' # lower e" by (simp add: lower_append_dot)
    from 1 have e': "CHR ''.'' \<notin> set (lower e)" by (simp add: lower_set_dot)
    from 2 have nd': "\<exists>c\<in>set (lower stem). c \<noteq> CHR ''.''" by (simp add: lower_nondot)
    from 3 have al: "CHR ''.'' # lower e \<in> ALLOWED_EXT" by (simp add: mem)
    from g e' nd' al have "snd (splitext (lower f)) \<in> ALLOWED_EXT"
      unfolding splitext_snd_filename [OF ns] by blast
    then show "is_image f" by (simp add: is_image_def)
  qed
qed

lemmas is_image_filename = is_image_filename_gen [OF _ ALLOWED_EXT_image]

section \<open>Facts about the run of link-list-v2.py\<close>

lemma clean_folder_name_total: "\<exists>r. clean_folder_name s = Inr r"
proof (cases "str_in ''. '' s")
  case False
  then show ?thesis by (simp add: clean_folder_name_def)
next
  case True
  then obtain i where i: "str_find ''. '' s = Some i" by (auto simp: str_in_def)
  from True obtain c cs where s: "s = c # cs"
    unfolding str_in_iff by (cases s) auto
  have "length (split_once ''. '' s) = 2" using i by (simp add: split_once_def)
  then have "\<exists>r. py_index (split_once ''. '' s) 1 = Inr r" by (simp add: py_index_def)
  with True s show ?thesis
    by (auto simp: clean_folder_name_def py_bind_def py_index_def)
qed

lemma split_chr_sep_length: "2 \<le> length (split_chr sep (a @ sep # b))"
proof (induction a)
  case Nil
  have "split_chr sep b \<noteq> []" by (rule split_chr_nonempty)
  then have "1 \<le> length (split_chr sep b)" by (cases "split_chr sep b") auto
  then show ?case by simp
next
  case (Cons c a)
  obtain w ws where "split_chr sep (a @ sep # b) = w # ws"
    using split_chr_nonempty [of sep "a @ sep # b"] by (cases "split_chr sep (a @ sep # b)") auto
  with Cons show ?case by auto
qed

lemma parse_path_info_total:
  assumes "strip_dot (split_chr CHR ''/'' path) = Inr parts" and "2 \<le> length parts"
  shows "\<exists>a b d. parse_path_info path = Inr (a, b, d, path)"
proof -
  from assms(2) obtain a b r where p: "parts = a # b # r"
    by (cases parts; cases "tl parts") auto
  show ?thesis
  proof (cases r)
    case Nil
    with p assms(1) show ?thesis by (simp add: parse_path_info_def py_bind_def)
  next
    case (Cons c r')
    show ?thesis
    proof (cases r')
      case Nil
      with p Cons assms(1) show ?thesis by (simp add: parse_path_info_def py_bind_def)
    next
      case (Cons e r'')
      obtain d where "clean_folder_name c = Inr d" using clean_folder_name_total by blast
      with p \<open>r = c # r'\<close> Cons assms(1) show ?thesis
        by (simp add: parse_path_info_def py_bind_def py_index_def)
    qed
  qed
qed

lemma parse_path_info_prefixed:
  "\<exists>a b d. parse_path_info (''./'' @ folder @ ''/'' @ f) =
     Inr (a, b, d, ''./'' @ folder @ ''/'' @ f)"
proof -
  have sp: "split_chr CHR ''/'' (''./'' @ folder @ ''/'' @ f) =
      ''.'' # split_chr CHR ''/'' (folder @ CHR ''/'' # f)"
    by simp
  have "strip_dot (split_chr CHR ''/'' (''./'' @ folder @ ''/'' @ f)) =
      Inr (split_chr CHR ''/'' (folder @ CHR ''/'' # f))"
    unfolding sp by (simp add: strip_dot_def py_bind_def py_index_def)
  moreover have "2 \<le> length (split_chr CHR ''/'' (folder @ CHR ''/'' # f))"
    by (rule split_chr_sep_length)
  ultimately show ?thesis by (rule parse_path_info_total)
qed

lemma prefixed_images_prefixed: "\<forall>p\<in>set (prefixed_images w folder). prefixed p"
  by (auto simp: prefixed_images_def prefixed_def)

lemma collect_files_prefixed:
  "collect_files w argv = Inr files \<Longrightarrow> \<forall>p\<in>set files. prefixed p"
  using prefixed_images_prefixed
  by (auto simp: collect_files_def Let_def split: list.splits if_splits)

lemma write_rows_total:
  assumes "\<forall>p\<in>set files. prefixed p"
  shows "\<exists>rows. write_rows g files = Inr rows \<and> length rows = length files \<and>
           (\<forall>i<length files. \<exists>a b d. parse_path_info (files ! i) = Inr (a, b, d, files ! i) \<and>
               rows ! i = [a, b, d, files ! i, url_of g (files ! i)])"
  using assms
proof (induction files)
  case Nil
  then show ?case by simp
next
  case (Cons p files)
  then obtain rows where rows: "write_rows g files = Inr rows" "length rows = length files"
    "\<forall>i<length files. \<exists>a b d. parse_path_info (files ! i) = Inr (a, b, d, files ! i) \<and>
               rows ! i = [a, b, d, files ! i, url_of g (files ! i)]"
    by auto
  from Cons.prems have "prefixed p" by simp
  then obtain a b d where p: "parse_path_info p = Inr (a, b, d, p)"
    unfolding prefixed_def using parse_path_info_prefixed by blast
  have w: "write_rows g (p # files) = Inr ([a, b, d, p, url_of g p] # rows)"
    using p rows(1) by (simp add: py_bind_def)
  have l: "length ([a, b, d, p, url_of g p] # rows) = length (p # files)"
    using rows(2) by simp
  have "\<forall>i<length (p # files). \<exists>a' b' d'.
          parse_path_info ((p # files) ! i) = Inr (a', b', d', (p # files) ! i) \<and>
          ([a, b, d, p, url_of g p] # rows) ! i =
            [a', b', d', (p # files) ! i, url_of g ((p # files) ! i)]"
  proof (intro allI impI)
    fix i assume "i < length (p # files)"
    then show "\<exists>a' b' d'.
          parse_path_info ((p # files) ! i) = Inr (a', b', d', (p # files) ! i) \<and>
          ([a, b, d, p, url_of g p] # rows) ! i =
            [a', b', d', (p # files) ! i, url_of g ((p # files) ! i)]"
      using p rows(3) by (cases i) auto
  qed
  with w l show ?case by blast
qed

lemma get_git_info_errors:
  "get_git_info w = Inl e \<Longrightarrow> e = ValueError \<or> e = FileNotFoundError"
  by (auto simp: get_git_info_def check_output_def owner_repo_of_def py_bind_def
      split: proc_result.splits sum.splits py_error.splits if_splits list.splits prod.splits)

lemma main_v2_value_error_recovered:
  assumes "get_git_info w = Inl ValueError"
  shows "\<exists>code csv. main_v2 w argv = Inr (code, csv) \<and>
           (\<forall>rows. csv = Some rows \<longrightarrow> (\<forall>r\<in>set (tl rows). length r = 5 \<and> r ! 4 = []))"
proof (cases "collect_files w argv")
  case (Inl code)
  then show ?thesis by (simp add: main_v2_def)
next
  case (Inr files)
  then have "\<forall>p\<in>set files. prefixed p" by (rule collect_files_prefixed)
  from write_rows_total [OF this, of None] obtain rows where
    rows: "write_rows None files = Inr rows" "length rows = length files"
    "\<forall>i<length files. \<exists>a b d. parse_path_info (files ! i) = Inr (a, b, d, files ! i) \<and>
               rows ! i = [a, b, d, files ! i, url_of None (files ! i)]"
    by blast
  have "\<forall>r\<in>set rows. length r = 5 \<and> r ! 4 = []"
  proof
    fix r assume "r \<in> set rows"
    then obtain i where i: "i < length rows" "rows ! i = r" by (auto simp: in_set_conv_nth)
    with rows(2,3) obtain a b d where "r = [a, b, d, files ! i, url_of None (files ! i)]"
      by auto
    then show "length r = 5 \<and> r ! 4 = []" by (simp add: url_of_def)
  qed
  with Inr assms rows(1) show ?thesis
    by (simp add: main_v2_def py_bind_def)
qed

text \<open>Every row that a run writes carries a path that starts with \<^verbatim>\<open>./\<close>.\<close>

lemma main_v2_rows_prefixed:
  assumes "main_v2 w argv = Inr (code, Some rows)"
  shows "\<exists>body. rows = csv_header # body \<and> (\<forall>r\<in>set body. length r = 5 \<and> prefixed (r ! 3))"
proof (cases "collect_files w argv")
  case (Inl c)
  with assms show ?thesis by (simp add: main_v2_def)
next
  case (Inr files)
  then have pf: "\<forall>p\<in>set files. prefixed p" by (rule collect_files_prefixed)
  from assms Inr obtain g where
    m: "(if files = [] then Inr (0, None)
         else py_bind (write_rows g files) (\<lambda>rows. Inr (0, Some (csv_header # rows))))
        = Inr (code, Some rows)"
    by (auto simp: main_v2_def py_bind_def split: sum.splits py_error.splits)
  from write_rows_total [OF pf, of g] obtain body where
    body: "write_rows g files = Inr body" "length body = length files"
    "\<forall>i<length files. \<exists>a b d. parse_path_info (files ! i) = Inr (a, b, d, files ! i) \<and>
               body ! i = [a, b, d, files ! i, url_of g (files ! i)]"
    by blast
  from m body(1) have rows: "rows = csv_header # body"
    by (auto simp: py_bind_def split: if_splits)
  have "\<forall>r\<in>set body. length r = 5 \<and> prefixed (r ! 3)"
  proof
    fix r assume "r \<in> set body"
    then obtain i where i: "i < length body" "body ! i = r" by (auto simp: in_set_conv_nth)
    with body(2,3) obtain a b d where r: "r = [a, b, d, files ! i, url_of g (files ! i)]"
      by auto
    from i(1) body(2) pf have "prefixed (files ! i)" by simp
    with r show "length r = 5 \<and> prefixed (r ! 3)" by simp
  qed
  with rows show ?thesis by blast
qed

section \<open>Facts about the remote parsing\<close>

text \<open>
  A repository name that does not end in one of the characters of \<^verbatim>\<open>.git\<close> is parsed
  as written, with or without the suffix, in both shapes of the remote.
\<close>

lemma split_chr_append_sep:
  "sep \<notin> set a \<Longrightarrow> split_chr sep (a @ sep # s) = a # split_chr sep s"
  by (induction a) auto

lemma rstrip_chars_keep:
  assumes "s \<noteq> []" and "last s \<notin> set chars"
  shows "rstrip_chars chars s = s"
proof -
  from assms(1) obtain x xs where r: "rev s = x # xs" by (cases "rev s") auto
  then have "x = last s" using assms(1) by (metis hd_rev list.sel(1))
  with assms(2) have "dropWhile (\<lambda>c. c \<in> set chars) (x # xs) = x # xs" by simp
  then have "dropWhile (\<lambda>c. c \<in> set chars) (rev s) = rev s" unfolding r .
  then show ?thesis by (simp add: rstrip_chars_def)
qed

lemma rstrip_chars_suffix:
  assumes "s \<noteq> []" and "last s \<notin> set chars" and "set t \<subseteq> set chars"
  shows "rstrip_chars chars (s @ t) = s"
proof -
  have "dropWhile (\<lambda>c. c \<in> set chars) (rev t @ rev s) = dropWhile (\<lambda>c. c \<in> set chars) (rev s)"
    using assms(3) by (intro dropWhile_append2) auto
  moreover have "rstrip_chars chars s = s" using assms(1,2) by (rule rstrip_chars_keep)
  ultimately show ?thesis by (simp add: rstrip_chars_def)
qed

lemma owner_repo_of_https:
  assumes "CHR ''/'' \<notin> set owner" and "CHR ''/'' \<notin> set repo"
    and "repo \<noteq> []" and "last repo \<notin> set ''.git''"
    and "sfx = [] \<or> sfx = ''.git''"
  shows "owner_repo_of (''https://github.com/'' @ owner @ ''/'' @ repo @ sfx) = Inr (owner, repo)"
proof -
  let ?base = "''https://github.com/'' @ owner @ ''/'' @ repo"
  have in_gh: "str_in ''github.com'' (?base @ sfx)"
    unfolding str_in_iff
    by (rule exI [of _ "''https://''"], rule exI [of _ "''/'' @ owner @ ''/'' @ repo @ sfx"]) simp
  have sw: "startswith (?base @ sfx) ''https''" by (simp add: startswith_def)
  have ne: "?base \<noteq> []" by simp
  have la: "last ?base \<notin> set ''.git''" using assms(3,4) by simp
  have rs: "rstrip_chars ''.git'' (?base @ sfx) = ?base"
  proof -
    from assms(5) have "set sfx \<subseteq> set ''.git''" by auto
    with ne la show ?thesis by (rule rstrip_chars_suffix)
  qed
  have "split_chr CHR ''/'' ?base =
      ''https:'' # split_chr CHR ''/'' (''/github.com/'' @ owner @ ''/'' @ repo)"
    using split_chr_append_sep [of "CHR ''/''" "''https:''"] by simp
  also have "split_chr CHR ''/'' (''/github.com/'' @ owner @ ''/'' @ repo) =
      [] # split_chr CHR ''/'' (''github.com/'' @ owner @ ''/'' @ repo)"
    by simp
  also have "split_chr CHR ''/'' (''github.com/'' @ owner @ ''/'' @ repo) =
      ''github.com'' # split_chr CHR ''/'' (owner @ ''/'' @ repo)"
    using split_chr_append_sep [of "CHR ''/''" "''github.com''"] by simp
  also have "split_chr CHR ''/'' (owner @ ''/'' @ repo) = owner # split_chr CHR ''/'' repo"
    using split_chr_append_sep [OF assms(1)] by simp
  also have "split_chr CHR ''/'' repo = [repo]"
    using assms(2) by (rule split_chr_single)
  finally have sp: "split_chr CHR ''/'' ?base = [''https:'', [], ''github.com'', owner, repo]" .
  have "owner_repo_of (?base @ sfx) = Inr (owner, repo)"
    unfolding owner_repo_of_def rs sp using in_gh sw by simp
  then show ?thesis by simp
qed

lemma owner_repo_of_ssh:
  assumes "CHR '':'' \<notin> set user" and "\<not> prefix ''https'' user"
    and "CHR '':'' \<notin> set owner" and "CHR ''/'' \<notin> set owner"
    and "CHR '':'' \<notin> set repo" and "CHR ''/'' \<notin> set repo"
    and "repo \<noteq> []" and "last repo \<notin> set ''.git''"
    and "sfx = [] \<or> sfx = ''.git''"
  shows "owner_repo_of (user @ ''@github.com:'' @ owner @ ''/'' @ repo @ sfx) = Inr (owner, repo)"
proof -
  let ?tail = "owner @ ''/'' @ repo"
  let ?remote = "user @ ''@github.com:'' @ ?tail @ sfx"
  have in_gh: "str_in ''github.com'' ?remote"
    unfolding str_in_iff
    by (rule exI [of _ "user @ ''@''"], rule exI [of _ "'':'' @ ?tail @ sfx"]) simp
  have nsw: "\<not> startswith ?remote ''https''"
  proof
    assume "startswith ?remote ''https''"
    then have p: "prefix ''https'' (user @ (''@github.com:'' @ ?tail @ sfx))"
      by (simp add: startswith_def)
    from assms(2) p obtain us where "''https'' = user @ us" "us \<noteq> []"
      "prefix us (''@github.com:'' @ ?tail @ sfx)"
      unfolding prefix_append by auto
    then obtain us' where us: "''https'' = user @ CHR ''@'' # us'"
      by (cases us) auto
    have "CHR ''@'' \<in> set (user @ CHR ''@'' # us')" by simp
    then have "CHR ''@'' \<in> set ''https''" unfolding us [symmetric] .
    then show False by simp
  qed
  have "CHR '':'' \<notin> set (user @ ''@github.com'')" using assms(1) by simp
  from split_chr_append_sep [OF this, of "?tail @ sfx"]
  have "split_chr CHR '':'' ?remote = (user @ ''@github.com'') # split_chr CHR '':'' (?tail @ sfx)"
    by simp
  moreover have "split_chr CHR '':'' (?tail @ sfx) = [?tail @ sfx]"
    using assms(3,5,9) by (intro split_chr_single) auto
  ultimately have sp1: "split_chr CHR '':'' ?remote = [user @ ''@github.com'', ?tail @ sfx]"
    by simp
  have rs: "rstrip_chars ''.git'' (?tail @ sfx) = ?tail"
  proof -
    have "?tail \<noteq> []" by simp
    moreover have "last ?tail \<notin> set ''.git''" using assms(7,8) by simp
    moreover from assms(9) have "set sfx \<subseteq> set ''.git''" by auto
    ultimately show ?thesis by (rule rstrip_chars_suffix)
  qed
  have sp2: "split_chr CHR ''/'' ?tail = [owner, repo]"
    using split_chr_append_sep [OF assms(4), of repo] split_chr_single [OF assms(6)] by simp
  have "owner_repo_of ?remote = Inr (owner, repo)"
    unfolding owner_repo_of_def sp1 using in_gh nsw rs sp2 by simp
  then show ?thesis by simp
qed

section \<open>Facts about the example environment\<close>

lemma proj_scan: "list_images proj_world ''Proj'' = [''M3/1. D.I Foo/img.png'']"
  by code_simp

lemma proj_git: "get_git_info proj_world = Inr (''o'', ''r'', ''main'')"
  by code_simp

section \<open>The claims\<close>

text \<open>
  C1, amended. \<^verbatim>\<open>parse_path_info\<close> (\<^verbatim>\<open>link-list-v2.py\<close>): when the path, with a leading \<^verbatim>\<open>./\<close>
  removed, has exactly two segments, the period and the sub-unit are empty; when it has
  exactly three, the sub-unit is empty and the period is the second segment.
  \<^verbatim>\<open>row_from_path\<close> (\<^verbatim>\<open>link-list-new.py\<close>) removes no \<^verbatim>\<open>./\<close> and fills the columns by
  position: for a path of exactly two segments the sub-unit is empty and the period is the
  second segment (the file name); for exactly three segments the period is the second
  segment, and the sub-unit is empty when the third segment does not contain \<^verbatim>\<open>D.I\<close> and a
  non-empty string starting with \<^verbatim>\<open>D.I\<close> when it does.
\<close>

theorem segment_depth_columns:
  "(length (split_chr CHR ''/'' (if prefix ''./'' path then drop 2 path else path)) = 2 \<longrightarrow>
      parse_path_info path =
        Inr (split_chr CHR ''/'' (if prefix ''./'' path then drop 2 path else path) ! 0,
             [], [], path))
   \<and> (length (split_chr CHR ''/'' (if prefix ''./'' path then drop 2 path else path)) = 3 \<longrightarrow>
      parse_path_info path =
        Inr (split_chr CHR ''/'' (if prefix ''./'' path then drop 2 path else path) ! 0,
             split_chr CHR ''/'' (if prefix ''./'' path then drop 2 path else path) ! 1,
             [], path))
   \<and> (length (split_chr CHR ''/'' path) = 2 \<longrightarrow>
      row_from_path_new path =
        Inr [split_chr CHR ''/'' path ! 0, split_chr CHR ''/'' path ! 1, [], ''./'' @ path])
   \<and> (length (split_chr CHR ''/'' path) = 3 \<and>
      \<not> (\<exists>a b. split_chr CHR ''/'' path ! 2 = a @ ''D.I'' @ b) \<longrightarrow>
      row_from_path_new path =
        Inr [split_chr CHR ''/'' path ! 0, split_chr CHR ''/'' path ! 1, [], ''./'' @ path])
   \<and> (length (split_chr CHR ''/'' path) = 3 \<and>
      (\<exists>a b. split_chr CHR ''/'' path ! 2 = a @ ''D.I'' @ b) \<longrightarrow>
      (\<exists>d. d \<noteq> [] \<and> prefix ''D.I'' d \<and>
         row_from_path_new path =
           Inr [split_chr CHR ''/'' path ! 0, split_chr CHR ''/'' path ! 1, d, ''./'' @ path]))"
proof (intro conjI)
  show "length (split_chr CHR ''/'' (if prefix ''./'' path then drop 2 path else path)) = 2 \<longrightarrow>
      parse_path_info path =
        Inr (split_chr CHR ''/'' (if prefix ''./'' path then drop 2 path else path) ! 0,
             [], [], path)"
    using v2_part [of path] by (rule conjunct1)
  show "length (split_chr CHR ''/'' (if prefix ''./'' path then drop 2 path else path)) = 3 \<longrightarrow>
      parse_path_info path =
        Inr (split_chr CHR ''/'' (if prefix ''./'' path then drop 2 path else path) ! 0,
             split_chr CHR ''/'' (if prefix ''./'' path then drop 2 path else path) ! 1,
             [], path)"
    using v2_part [of path] by (rule conjunct2)
  show "length (split_chr CHR ''/'' path) = 2 \<longrightarrow>
      row_from_path_new path =
        Inr [split_chr CHR ''/'' path ! 0, split_chr CHR ''/'' path ! 1, [], ''./'' @ path]"
  proof
    assume "length (split_chr CHR ''/'' path) = 2"
    then have "split_chr CHR ''/'' path = [split_chr CHR ''/'' path ! 0, split_chr CHR ''/'' path ! 1]"
      by (rule length2E)
    then show "row_from_path_new path =
        Inr [split_chr CHR ''/'' path ! 0, split_chr CHR ''/'' path ! 1, [], ''./'' @ path]"
      by (rule row_from_path_new_short2)
  qed
  show "length (split_chr CHR ''/'' path) = 3 \<and>
      \<not> (\<exists>a b. split_chr CHR ''/'' path ! 2 = a @ ''D.I'' @ b) \<longrightarrow>
      row_from_path_new path =
        Inr [split_chr CHR ''/'' path ! 0, split_chr CHR ''/'' path ! 1, [], ''./'' @ path]"
  proof
    assume h: "length (split_chr CHR ''/'' path) = 3 \<and>
      \<not> (\<exists>a b. split_chr CHR ''/'' path ! 2 = a @ ''D.I'' @ b)"
    then have sp: "split_chr CHR ''/'' path =
        [split_chr CHR ''/'' path ! 0, split_chr CHR ''/'' path ! 1, split_chr CHR ''/'' path ! 2]"
      using length3E by blast
    from h have "di_name_of (split_chr CHR ''/'' path ! 2) = Inr []"
      using di_name_of_absent by blast
    with sp show "row_from_path_new path =
        Inr [split_chr CHR ''/'' path ! 0, split_chr CHR ''/'' path ! 1, [], ''./'' @ path]"
      by (rule row_from_path_new_long)
  qed
  show "length (split_chr CHR ''/'' path) = 3 \<and>
      (\<exists>a b. split_chr CHR ''/'' path ! 2 = a @ ''D.I'' @ b) \<longrightarrow>
      (\<exists>d. d \<noteq> [] \<and> prefix ''D.I'' d \<and>
         row_from_path_new path =
           Inr [split_chr CHR ''/'' path ! 0, split_chr CHR ''/'' path ! 1, d, ''./'' @ path])"
  proof
    assume h: "length (split_chr CHR ''/'' path) = 3 \<and>
      (\<exists>a b. split_chr CHR ''/'' path ! 2 = a @ ''D.I'' @ b)"
    then have sp: "split_chr CHR ''/'' path =
        [split_chr CHR ''/'' path ! 0, split_chr CHR ''/'' path ! 1, split_chr CHR ''/'' path ! 2]"
      using length3E by blast
    from h have "str_in ''D.I'' (split_chr CHR ''/'' path ! 2)"
      unfolding str_in_iff by (rule conjunct2)
    then obtain d where d: "di_name_of (split_chr CHR ''/'' path ! 2) = Inr d"
        "d \<noteq> []" "prefix ''D.I'' d"
      using di_name_of_shape [of "split_chr CHR ''/'' path ! 2"] by auto
    from sp d(1) have "row_from_path_new path =
        Inr [split_chr CHR ''/'' path ! 0, split_chr CHR ''/'' path ! 1, d, ''./'' @ path]"
      by (rule row_from_path_new_long)
    with d(2,3) show "\<exists>d. d \<noteq> [] \<and> prefix ''D.I'' d \<and>
         row_from_path_new path =
           Inr [split_chr CHR ''/'' path ! 0, split_chr CHR ''/'' path ! 1, d, ''./'' @ path]"
      by blast
  qed
qed

text \<open>
  Each of the five cases at a concrete path.
\<close>

theorem segment_depth_columns_witness:
  "parse_path_info ''./Oplah A/a.png'' = Inr (''Oplah A'', [], [], ''./Oplah A/a.png'')
   \<and> parse_path_info ''Oplah A/M3/a.png'' = Inr (''Oplah A'', ''M3'', [], ''Oplah A/M3/a.png'')
   \<and> row_from_path_new ''Oplah A/a.png'' = Inr [''Oplah A'', ''a.png'', [], ''./Oplah A/a.png'']
   \<and> row_from_path_new ''Oplah A/M3/a.png'' = Inr [''Oplah A'', ''M3'', [], ''./Oplah A/M3/a.png'']
   \<and> (\<exists>d. d \<noteq> [] \<and> prefix ''D.I'' d \<and>
         row_from_path_new ''Oplah A/M3/D.I x.png'' =
           Inr [''Oplah A'', ''M3'', d, ''./Oplah A/M3/D.I x.png''])"
proof -
  let ?p2 = "''./Oplah A/a.png''"
  let ?p3 = "''Oplah A/M3/a.png''"
  let ?q2 = "''Oplah A/a.png''"
  let ?q3 = "''Oplah A/M3/D.I x.png''"
  have h1: "length (split_chr CHR ''/'' (if prefix ''./'' ?p2 then drop 2 ?p2 else ?p2)) = 2"
    by simp
  have h2: "length (split_chr CHR ''/'' (if prefix ''./'' ?p3 then drop 2 ?p3 else ?p3)) = 3"
    by simp
  have h3: "length (split_chr CHR ''/'' ?q2) = 2" by simp
  have h4: "length (split_chr CHR ''/'' ?p3) = 3" by simp
  have h4': "\<not> (\<exists>a b. split_chr CHR ''/'' ?p3 ! 2 = a @ ''D.I'' @ b)"
  proof -
    have "\<not> str_in ''D.I'' (split_chr CHR ''/'' ?p3 ! 2)"
      by (simp add: str_in_def startswith_def)
    then show ?thesis unfolding str_in_iff .
  qed
  have h5: "length (split_chr CHR ''/'' ?q3) = 3" by simp
  have h5': "\<exists>a b. split_chr CHR ''/'' ?q3 ! 2 = a @ ''D.I'' @ b"
  proof -
    have "str_in ''D.I'' (split_chr CHR ''/'' ?q3 ! 2)"
      by (simp add: str_in_def startswith_def)
    then show ?thesis unfolding str_in_iff .
  qed
  note t = segment_depth_columns
  have c1: "parse_path_info ?p2 =
      Inr (split_chr CHR ''/'' (if prefix ''./'' ?p2 then drop 2 ?p2 else ?p2) ! 0, [], [], ?p2)"
    by (rule t [of ?p2, THEN conjunct1, THEN mp, OF h1])
  have c2: "parse_path_info ?p3 =
      Inr (split_chr CHR ''/'' (if prefix ''./'' ?p3 then drop 2 ?p3 else ?p3) ! 0,
           split_chr CHR ''/'' (if prefix ''./'' ?p3 then drop 2 ?p3 else ?p3) ! 1, [], ?p3)"
    by (rule t [of ?p3, THEN conjunct2, THEN conjunct1, THEN mp, OF h2])
  have c3: "row_from_path_new ?q2 =
      Inr [split_chr CHR ''/'' ?q2 ! 0, split_chr CHR ''/'' ?q2 ! 1, [], ''./'' @ ?q2]"
    by (rule t [of ?q2, THEN conjunct2, THEN conjunct2, THEN conjunct1, THEN mp, OF h3])
  have c4: "row_from_path_new ?p3 =
      Inr [split_chr CHR ''/'' ?p3 ! 0, split_chr CHR ''/'' ?p3 ! 1, [], ''./'' @ ?p3]"
    by (rule t [of ?p3, THEN conjunct2, THEN conjunct2, THEN conjunct2, THEN conjunct1, THEN mp,
          OF conjI [OF h4 h4']])
  have c5: "\<exists>d. d \<noteq> [] \<and> prefix ''D.I'' d \<and>
         row_from_path_new ?q3 =
           Inr [split_chr CHR ''/'' ?q3 ! 0, split_chr CHR ''/'' ?q3 ! 1, d, ''./'' @ ?q3]"
    by (rule t [of ?q3, THEN conjunct2, THEN conjunct2, THEN conjunct2, THEN conjunct2, THEN mp,
          OF conjI [OF h5 h5']])
  from c1 have d1: "parse_path_info ?p2 = Inr (''Oplah A'', [], [], ?p2)" by simp
  from c2 have d2: "parse_path_info ?p3 = Inr (''Oplah A'', ''M3'', [], ?p3)" by simp
  from c3 have d3: "row_from_path_new ?q2 = Inr [''Oplah A'', ''a.png'', [], ''./Oplah A/a.png'']"
    by simp
  from c4 have d4: "row_from_path_new ?p3 = Inr [''Oplah A'', ''M3'', [], ''./Oplah A/M3/a.png'']"
    by simp
  from c5 have d5: "\<exists>d. d \<noteq> [] \<and> prefix ''D.I'' d \<and>
         row_from_path_new ?q3 = Inr [''Oplah A'', ''M3'', d, ''./Oplah A/M3/D.I x.png'']"
    by simp
  from d1 d2 d3 d4 d5 show ?thesis by (intro conjI)
qed

text \<open>
  C1 as stated fails for the marker-search variant: a two-segment path gets the file name as
  its period, and a three-segment path whose file name contains \<^verbatim>\<open>D.I\<close> gets a sub-unit.
\<close>

theorem segment_depth_columns_counterexample:
  "length (split_chr CHR ''/'' ''Proj/img.png'') = 2
   \<and> row_from_path_new ''Proj/img.png'' = Inr [''Proj'', ''img.png'', [], ''./Proj/img.png'']
   \<and> ''img.png'' \<noteq> []
   \<and> length (split_chr CHR ''/'' ''Proj/M3/D.I x.png'') = 3
   \<and> row_from_path_new ''Proj/M3/D.I x.png'' =
       Inr [''Proj'', ''M3'', ''D.I x.png'', ''./Proj/M3/D.I x.png'']
   \<and> ''D.I x.png'' \<noteq> []"
  by (simp add: eval_defs)

text \<open>
  C2. \<open>clean_folder_name\<close> never raises. When the name starts with a digit (Python's
  \<^verbatim>\<open>isdigit\<close>) and \<^verbatim>\<open>". "\<close> occurs in it, the result is what follows the first occurrence
  of \<^verbatim>\<open>". "\<close>: for \<open>s = pre @ ''. '' @ post\<close> with no occurrence starting inside
  \<open>pre\<close>, it is \<open>post\<close>. A name without that shape is returned unchanged. The four
  examples of the specification hold, the last with two occurrences of \<^verbatim>\<open>". "\<close>.
\<close>

theorem clean_folder_name_prefix_strip:
  "(s = pre @ ''. '' @ post \<and> (\<forall>j<length pre. \<not> prefix ''. '' (drop j s)) \<and>
      (\<exists>cs. s = c # cs) \<and> isdigit c
      \<longrightarrow> clean_folder_name s = Inr post)
   \<and> (\<not> ((\<exists>d ds. s = d # ds \<and> isdigit d) \<and> (\<exists>a b. s = a @ ''. '' @ b))
      \<longrightarrow> clean_folder_name s = Inr s)
   \<and> clean_folder_name ''1. D.I Foo Bar'' = Inr ''D.I Foo Bar''
   \<and> clean_folder_name ''D.I Foo Bar'' = Inr ''D.I Foo Bar''
   \<and> clean_folder_name ''10. Something'' = Inr ''Something''
   \<and> clean_folder_name ''1. a. b'' = Inr ''a. b''
   \<and> (\<exists>r. clean_folder_name s = Inr r)"
proof (intro conjI impI)
  assume h: "s = pre @ ''. '' @ post \<and> (\<forall>j<length pre. \<not> prefix ''. '' (drop j s)) \<and>
      (\<exists>cs. s = c # cs) \<and> isdigit c"
  then obtain cs where "s = c # cs" by blast
  with h show "clean_folder_name s = Inr post"
    using clean_general [of s pre post c cs] by blast
next
  assume "\<not> ((\<exists>d ds. s = d # ds \<and> isdigit d) \<and> (\<exists>a b. s = a @ ''. '' @ b))"
  then show "clean_folder_name s = Inr s" by (rule clean_unchanged)
next
  show "clean_folder_name ''1. D.I Foo Bar'' = Inr ''D.I Foo Bar''"
    by (simp add: eval_defs)
  show "clean_folder_name ''D.I Foo Bar'' = Inr ''D.I Foo Bar''"
    by (simp add: eval_defs)
  show "clean_folder_name ''10. Something'' = Inr ''Something''"
    by (simp add: eval_defs)
  show "clean_folder_name ''1. a. b'' = Inr ''a. b''"
    by (simp add: eval_defs)
  show "\<exists>r. clean_folder_name s = Inr r"
    by (rule clean_folder_name_total)
qed

theorem clean_folder_name_prefix_strip_witness:
  "isdigit CHR ''7'' \<and> clean_folder_name ''7. Jalan. Raya'' = Inr ''Jalan. Raya''
   \<and> \<not> isdigit CHR ''M'' \<and> clean_folder_name ''M3. Irigasi'' = Inr ''M3. Irigasi''"
proof -
  have a: "''7. Jalan. Raya'' = ''7'' @ ''. '' @ ''Jalan. Raya''" by simp
  have b: "\<forall>j<length ''7''. \<not> prefix ''. '' (drop j ''7. Jalan. Raya'')" by simp
  have c: "\<exists>cs. ''7. Jalan. Raya'' = CHR ''7'' # cs" by simp
  have d: "isdigit CHR ''7''" by (simp add: isdigit_def)
  have e: "\<not> isdigit CHR ''M''" by (simp add: isdigit_def)
  then have f: "\<not> ((\<exists>d ds. ''M3. Irigasi'' = d # ds \<and> isdigit d) \<and>
                 (\<exists>a b. ''M3. Irigasi'' = a @ ''. '' @ b))" by simp
  have "clean_folder_name ''7. Jalan. Raya'' = Inr ''Jalan. Raya''"
    by (rule clean_folder_name_prefix_strip
          [of "''7. Jalan. Raya''" "''7''" "''Jalan. Raya''" "CHR ''7''",
           THEN conjunct1, THEN mp, OF conjI [OF a conjI [OF b conjI [OF c d]]]])
  moreover have "clean_folder_name ''M3. Irigasi'' = Inr ''M3. Irigasi''"
    by (rule clean_folder_name_prefix_strip
          [of "''M3. Irigasi''", THEN conjunct2, THEN conjunct1, THEN mp, OF f])
  ultimately show ?thesis using d e by (intro conjI)
qed

text \<open>
  C3. Marker search in \<^verbatim>\<open>link-list-new.py\<close>. For a path of at least four segments, let
  \<open>seg\<close> be the segment of index 2. If \<open>seg = pre @ ''D.I'' @ post\<close> and \<^verbatim>\<open>D.I\<close> does not
  occur at an index inside \<open>pre\<close> (so this is the first occurrence), the sub-unit column is
  \<open>''D.I'' @ post\<close> with the surrounding whitespace removed. If \<^verbatim>\<open>D.I\<close> does not occur in
  \<open>seg\<close>, the sub-unit column is empty. The other columns are segment 0, segment 1 and
  \<^verbatim>\<open>"./" + path\<close>. For the folder name \<^verbatim>\<open>1. M3 D.I Citasuk Banten Paket I\<close> the extraction
  yields \<^verbatim>\<open>D.I Citasuk Banten Paket I\<close>.
\<close>

theorem marker_search_subunit:
  "(4 \<le> length (split_chr CHR ''/'' path) \<and>
      split_chr CHR ''/'' path ! 2 = pre @ ''D.I'' @ post \<and>
      (\<forall>j<length pre. \<not> prefix ''D.I'' (drop j (split_chr CHR ''/'' path ! 2)))
      \<longrightarrow> row_from_path_new path =
            Inr [split_chr CHR ''/'' path ! 0, split_chr CHR ''/'' path ! 1,
                 strip (''D.I'' @ post), ''./'' @ path])
   \<and> (4 \<le> length (split_chr CHR ''/'' path) \<and>
      \<not> (\<exists>a b. split_chr CHR ''/'' path ! 2 = a @ ''D.I'' @ b)
      \<longrightarrow> row_from_path_new path =
            Inr [split_chr CHR ''/'' path ! 0, split_chr CHR ''/'' path ! 1, [], ''./'' @ path])
   \<and> di_name_of ''1. M3 D.I Citasuk Banten Paket I'' = Inr ''D.I Citasuk Banten Paket I''"
proof (intro conjI impI)
  assume h: "4 \<le> length (split_chr CHR ''/'' path) \<and>
      split_chr CHR ''/'' path ! 2 = pre @ ''D.I'' @ post \<and>
      (\<forall>j<length pre. \<not> prefix ''D.I'' (drop j (split_chr CHR ''/'' path ! 2)))"
  then obtain a b c e rest where sp: "split_chr CHR ''/'' path = a # b # c # e # rest"
    using length_ge4E by blast
  have "c \<in> set (split_chr CHR ''/'' path)" using sp by simp
  then have noslash: "CHR ''/'' \<notin> set c" by (rule split_chr_no_sep)
  have c2: "split_chr CHR ''/'' path ! 2 = c" using sp by simp
  from h have "c = pre @ ''D.I'' @ post" "\<forall>j<length pre. \<not> prefix ''D.I'' (drop j c)"
    unfolding c2 by blast+
  then have "di_name_of c = Inr (strip (''D.I'' @ post))"
    using noslash by (rule di_name_of_found)
  with sp have "row_from_path_new path = Inr [a, b, strip (''D.I'' @ post), ''./'' @ path]"
    by (rule row_from_path_new_long)
  with sp show "row_from_path_new path =
            Inr [split_chr CHR ''/'' path ! 0, split_chr CHR ''/'' path ! 1,
                 strip (''D.I'' @ post), ''./'' @ path]" by simp
next
  assume h: "4 \<le> length (split_chr CHR ''/'' path) \<and>
      \<not> (\<exists>a b. split_chr CHR ''/'' path ! 2 = a @ ''D.I'' @ b)"
  then obtain a b c e rest where sp: "split_chr CHR ''/'' path = a # b # c # e # rest"
    using length_ge4E by blast
  have c2: "split_chr CHR ''/'' path ! 2 = c" using sp by simp
  from h have "\<not> (\<exists>pre post. c = pre @ ''D.I'' @ post)" unfolding c2 by blast
  then have "di_name_of c = Inr []" by (rule di_name_of_absent)
  with sp have "row_from_path_new path = Inr [a, b, [], ''./'' @ path]"
    by (rule row_from_path_new_long)
  with sp show "row_from_path_new path =
            Inr [split_chr CHR ''/'' path ! 0, split_chr CHR ''/'' path ! 1, [], ''./'' @ path]"
    by simp
next
  show "di_name_of ''1. M3 D.I Citasuk Banten Paket I'' = Inr ''D.I Citasuk Banten Paket I''"
    by (simp add: eval_defs)
qed

text \<open>
  Both cases at real paths: a folder with the marker and trailing blanks, and one without.
\<close>

theorem marker_search_subunit_witness:
  "4 \<le> length (split_chr CHR ''/'' ''Oplah A/M3/1. M3 D.I Cibaliung /foto/a.jpg'')
   \<and> row_from_path_new ''Oplah A/M3/1. M3 D.I Cibaliung /foto/a.jpg'' =
       Inr [''Oplah A'', ''M3'', ''D.I Cibaliung'', ''./Oplah A/M3/1. M3 D.I Cibaliung /foto/a.jpg'']
   \<and> 4 \<le> length (split_chr CHR ''/'' ''Oplah A/M3/2. Saluran/foto/b.jpg'')
   \<and> row_from_path_new ''Oplah A/M3/2. Saluran/foto/b.jpg'' =
       Inr [''Oplah A'', ''M3'', [], ''./Oplah A/M3/2. Saluran/foto/b.jpg'']"
proof -
  let ?p = "''Oplah A/M3/1. M3 D.I Cibaliung /foto/a.jpg''"
  let ?q = "''Oplah A/M3/2. Saluran/foto/b.jpg''"
  have lp: "4 \<le> length (split_chr CHR ''/'' ?p)" by simp
  have lq: "4 \<le> length (split_chr CHR ''/'' ?q)" by simp
  have sp: "split_chr CHR ''/'' ?p ! 2 = ''1. M3 '' @ ''D.I'' @ '' Cibaliung ''" by simp
  have first: "\<forall>j<length ''1. M3 ''. \<not> prefix ''D.I'' (drop j (split_chr CHR ''/'' ?p ! 2))"
    by (simp add: less_Suc_eq)
  have none: "\<not> (\<exists>a b. split_chr CHR ''/'' ?q ! 2 = a @ ''D.I'' @ b)"
  proof -
    have "\<not> str_in ''D.I'' (split_chr CHR ''/'' ?q ! 2)"
      by (simp add: str_in_def startswith_def)
    then show ?thesis unfolding str_in_iff .
  qed
  have "row_from_path_new ?p =
          Inr [split_chr CHR ''/'' ?p ! 0, split_chr CHR ''/'' ?p ! 1,
               strip (''D.I'' @ '' Cibaliung ''), ''./'' @ ?p]"
    by (rule marker_search_subunit [of ?p "''1. M3 ''" "'' Cibaliung ''",
          THEN conjunct1, THEN mp, OF conjI [OF lp conjI [OF sp first]]])
  then have rp: "row_from_path_new ?p = Inr [''Oplah A'', ''M3'', ''D.I Cibaliung'', ''./'' @ ?p]"
    by (simp add: strip_def lstrip_def rstrip_def isspace_def)
  have "row_from_path_new ?q =
          Inr [split_chr CHR ''/'' ?q ! 0, split_chr CHR ''/'' ?q ! 1, [], ''./'' @ ?q]"
    by (rule marker_search_subunit [of ?q,
          THEN conjunct2, THEN conjunct1, THEN mp, OF conjI [OF lq none]])
  then have rq: "row_from_path_new ?q = Inr [''Oplah A'', ''M3'', [], ''./'' @ ?q]"
    by simp
  from lp rp lq rq show ?thesis by simp
qed

text \<open>
  C4, amended. In an environment where \<^verbatim>\<open>Proj\<close> is a directory whose scan yields the single
  image \<^verbatim>\<open>M3/1. D.I Foo/img.png\<close> and the remote resolves to (o, r, main), \<^verbatim>\<open>main\<close> of
  \<^verbatim>\<open>link-list-v2.py\<close> called on \<^verbatim>\<open>Proj\<close> exits with 0 and writes the header and one row: Proj,
  M3, D.I Foo, the path \<^verbatim>\<open>./Proj/M3/1. D.I Foo/img.png\<close>, and the URL that encodes that
  path, \<^verbatim>\<open>./\<close> included. The row of the specification is what the row loop gives for the
  path without the \<^verbatim>\<open>./\<close> that \<^verbatim>\<open>main\<close> puts before every path.
\<close>

theorem main_v2_end_to_end_row:
  "(isdir w ''Proj'' \<and> list_images w ''Proj'' = [''M3/1. D.I Foo/img.png''] \<and>
      get_git_info w = Inr (''o'', ''r'', ''main'')
      \<longrightarrow> main_v2 w [''Proj''] =
            Inr (0, Some [csv_header,
              [''Proj'', ''M3'', ''D.I Foo'', ''./Proj/M3/1. D.I Foo/img.png'',
               ''https://raw.githubusercontent.com/o/r/refs/heads/main/./Proj/M3/1.%20D.I%20Foo/img.png'']]))
   \<and> write_rows (Some (''o'', ''r'', ''main'')) [''Proj/M3/1. D.I Foo/img.png''] =
       Inr [[''Proj'', ''M3'', ''D.I Foo'', ''Proj/M3/1. D.I Foo/img.png'',
             ''https://raw.githubusercontent.com/o/r/refs/heads/main/Proj/M3/1.%20D.I%20Foo/img.png'']]"
proof (intro conjI impI)
  assume h: "isdir w ''Proj'' \<and> list_images w ''Proj'' = [''M3/1. D.I Foo/img.png''] \<and>
      get_git_info w = Inr (''o'', ''r'', ''main'')"
  have files: "collect_files w [''Proj''] = Inr [''./Proj/M3/1. D.I Foo/img.png'']"
    using h by (simp add: collect_files_def prefixed_images_def)
  have rows: "write_rows (Some (''o'', ''r'', ''main'')) [''./Proj/M3/1. D.I Foo/img.png''] =
      Inr [[''Proj'', ''M3'', ''D.I Foo'', ''./Proj/M3/1. D.I Foo/img.png'',
            ''https://raw.githubusercontent.com/o/r/refs/heads/main/./Proj/M3/1.%20D.I%20Foo/img.png'']]"
    by code_simp
  show "main_v2 w [''Proj''] =
            Inr (0, Some [csv_header,
              [''Proj'', ''M3'', ''D.I Foo'', ''./Proj/M3/1. D.I Foo/img.png'',
               ''https://raw.githubusercontent.com/o/r/refs/heads/main/./Proj/M3/1.%20D.I%20Foo/img.png'']])"
    unfolding main_v2_def files using h rows by (simp add: py_bind_def)
next
  show "write_rows (Some (''o'', ''r'', ''main'')) [''Proj/M3/1. D.I Foo/img.png''] =
       Inr [[''Proj'', ''M3'', ''D.I Foo'', ''Proj/M3/1. D.I Foo/img.png'',
             ''https://raw.githubusercontent.com/o/r/refs/heads/main/Proj/M3/1.%20D.I%20Foo/img.png'']]"
    by code_simp
qed

text \<open>
  The example environment satisfies the three conditions.
\<close>

theorem main_v2_end_to_end_row_witness:
  "isdir proj_world ''Proj''
   \<and> list_images proj_world ''Proj'' = [''M3/1. D.I Foo/img.png'']
   \<and> get_git_info proj_world = Inr (''o'', ''r'', ''main'')
   \<and> main_v2 proj_world [''Proj''] =
       Inr (0, Some [csv_header,
         [''Proj'', ''M3'', ''D.I Foo'', ''./Proj/M3/1. D.I Foo/img.png'',
          ''https://raw.githubusercontent.com/o/r/refs/heads/main/./Proj/M3/1.%20D.I%20Foo/img.png'']])"
proof -
  have a: "isdir proj_world ''Proj''" by (simp add: proj_world_def)
  note h = conjI [OF a conjI [OF proj_scan proj_git]]
  have "main_v2 proj_world [''Proj''] =
       Inr (0, Some [csv_header,
         [''Proj'', ''M3'', ''D.I Foo'', ''./Proj/M3/1. D.I Foo/img.png'',
          ''https://raw.githubusercontent.com/o/r/refs/heads/main/./Proj/M3/1.%20D.I%20Foo/img.png'']])"
    by (rule main_v2_end_to_end_row [of proj_world, THEN conjunct1, THEN mp, OF h])
  with a proj_scan proj_git show ?thesis by (intro conjI)
qed

text \<open>
  C4 as stated fails: in the example environment the run writes a row whose path and URL
  carry \<^verbatim>\<open>./\<close>, which is not the row of the specification.
\<close>

theorem main_v2_end_to_end_row_counterexample:
  "list_images proj_world ''Proj'' = [''M3/1. D.I Foo/img.png'']
   \<and> get_git_info proj_world = Inr (''o'', ''r'', ''main'')
   \<and> main_v2 proj_world [''Proj''] =
       Inr (0, Some [csv_header,
         [''Proj'', ''M3'', ''D.I Foo'', ''./Proj/M3/1. D.I Foo/img.png'',
          ''https://raw.githubusercontent.com/o/r/refs/heads/main/./Proj/M3/1.%20D.I%20Foo/img.png'']])
   \<and> [''Proj'', ''M3'', ''D.I Foo'', ''./Proj/M3/1. D.I Foo/img.png'',
          ''https://raw.githubusercontent.com/o/r/refs/heads/main/./Proj/M3/1.%20D.I%20Foo/img.png'']
     \<noteq> [''Proj'', ''M3'', ''D.I Foo'', ''Proj/M3/1. D.I Foo/img.png'',
          ''https://raw.githubusercontent.com/o/r/refs/heads/main/Proj/M3/1.%20D.I%20Foo/img.png'']"
  by code_simp

text \<open>
  C5. \<^verbatim>\<open>encode_path\<close> equals the path with every space replaced by \<^verbatim>\<open>%20\<close> and every other
  character (\<^verbatim>\<open>/\<close>, \<^verbatim>\<open>#\<close>, \<^verbatim>\<open>?\<close>, \<^verbatim>\<open>%\<close> included) kept in place; its segments are the
  segments of the path, each with its spaces replaced. The raw-shape \<^verbatim>\<open>make_github_url\<close> is
  the fixed prefix, owner, repo, \<^verbatim>\<open>/refs/heads/\<close>, branch and the encoded path, and
  \<^verbatim>\<open>make_github_url("o", "r", "main", "a b/c.png")\<close> is the URL of the specification.
\<close>

theorem encode_path_and_raw_url:
  "encode_path path = concat (map (\<lambda>c. if c = CHR '' '' then ''%20'' else [c]) path)
   \<and> split_chr CHR ''/'' (encode_path path) =
       map (replace_chr CHR '' '' ''%20'') (split_chr CHR ''/'' path)
   \<and> make_github_url owner repo branch path =
       ''https://raw.githubusercontent.com/'' @ owner @ ''/'' @ repo @ ''/refs/heads/'' @ branch
         @ ''/'' @ encode_path path
   \<and> encode_path ''a#b?c%d e'' = ''a#b?c%d%20e''
   \<and> make_github_url ''o'' ''r'' ''main'' ''a b/c.png'' =
       ''https://raw.githubusercontent.com/o/r/refs/heads/main/a%20b/c.png''"
proof (intro conjI)
  have e: "encode_path path = replace_chr CHR '' '' ''%20'' path"
    unfolding encode_path_def by (rule join_map_replace_split) simp
  then show "encode_path path = concat (map (\<lambda>c. if c = CHR '' '' then ''%20'' else [c]) path)"
    by (simp add: replace_chr_def)
  show "split_chr CHR ''/'' (encode_path path) =
       map (replace_chr CHR '' '' ''%20'') (split_chr CHR ''/'' path)"
    unfolding e by (rule split_replace_chr) simp_all
  show "make_github_url owner repo branch path =
       ''https://raw.githubusercontent.com/'' @ owner @ ''/'' @ repo @ ''/refs/heads/'' @ branch
         @ ''/'' @ encode_path path"
    by (simp add: make_github_url_def)
  show "encode_path ''a#b?c%d e'' = ''a#b?c%d%20e''"
    by (simp add: encode_path_def replace_chr_def)
  show "make_github_url ''o'' ''r'' ''main'' ''a b/c.png'' =
       ''https://raw.githubusercontent.com/o/r/refs/heads/main/a%20b/c.png''"
    by (simp add: make_github_url_def encode_path_def replace_chr_def)
qed

text \<open>
  C6, amended. On the empty path, \<^verbatim>\<open>row_from_path\<close> of \<^verbatim>\<open>link-list.py\<close> returns four empty
  strings whatever the separator; \<^verbatim>\<open>row_from_path\<close> of \<^verbatim>\<open>link-list-new.py\<close> returns a row
  whose project, period and sub-unit are empty; and \<^verbatim>\<open>parse_path_info\<close> of
  \<^verbatim>\<open>link-list-v2.py\<close> raises IndexError, since it reads \<^verbatim>\<open>parts[1]\<close> of a one-element list.
\<close>

theorem empty_path_rows:
  "(\<forall>sep. row_from_path sep [] = Inr [[], [], [], []])
   \<and> (\<exists>image. row_from_path_new [] = Inr [[], [], [], image])
   \<and> parse_path_info [] = Inl IndexError"
  by (simp add: eval_defs)

text \<open>
  C6 as stated fails: on the empty path \<^verbatim>\<open>parse_path_info\<close> does not return four empty
  strings, and the marker-search variant returns \<^verbatim>\<open>"./"\<close> as its fourth column.
\<close>

theorem empty_path_counterexample:
  "parse_path_info [] \<noteq> Inr ([], [], [], [])
   \<and> row_from_path_new [] = Inr [[], [], [], ''./'']
   \<and> row_from_path_new [] \<noteq> Inr [[], [], [], []]"
  by (simp add: eval_defs)

text \<open>
  C7, amended. For a file name \<open>f\<close> (no \<^verbatim>\<open>/\<close> in it), \<^verbatim>\<open>is_image f\<close> holds exactly when
  \<open>f = stem @ ''.'' @ e\<close> where \<open>e\<close> has no dot (so the dot is the last one), \<open>stem\<close> has a
  character other than a dot, and \<open>e\<close> in lower case is one of the nine extensions. The
  condition on \<open>stem\<close> is \<^verbatim>\<open>os.path.splitext\<close> ignoring leading dots. The three examples of
  the specification hold.
\<close>

theorem is_image_by_extension:
  "(CHR ''/'' \<notin> set f \<longrightarrow>
      (is_image f \<longleftrightarrow>
         (\<exists>stem e. f = stem @ ''.'' @ e \<and> CHR ''.'' \<notin> set e \<and>
            (\<exists>c\<in>set stem. c \<noteq> CHR ''.'') \<and>
            lower e \<in> {''png'', ''jpg'', ''jpeg'', ''gif'', ''webp'', ''bmp'', ''tif'', ''tiff'', ''svg''})))
   \<and> is_image ''Photo.JPG'' \<and> \<not> is_image ''notes.txt'' \<and> \<not> is_image ''noext''"
proof (intro conjI impI)
  assume "CHR ''/'' \<notin> set f"
  then show "is_image f \<longleftrightarrow>
         (\<exists>stem e. f = stem @ ''.'' @ e \<and> CHR ''.'' \<notin> set e \<and>
            (\<exists>c\<in>set stem. c \<noteq> CHR ''.'') \<and>
            lower e \<in> {''png'', ''jpg'', ''jpeg'', ''gif'', ''webp'', ''bmp'', ''tif'', ''tiff'', ''svg''})"
    by (rule is_image_filename)
next
  show "is_image ''Photo.JPG''" by code_simp
  show "\<not> is_image ''notes.txt''" by code_simp
  show "\<not> is_image ''noext''" by code_simp
qed

text \<open>
  A file name with two dots and a mixed-case extension.
\<close>

theorem is_image_by_extension_witness:
  "CHR ''/'' \<notin> set ''peta.lokasi.Jpeg'' \<and> is_image ''peta.lokasi.Jpeg''"
proof -
  have h: "CHR ''/'' \<notin> set ''peta.lokasi.Jpeg''" by simp
  have "\<exists>stem e. ''peta.lokasi.Jpeg'' = stem @ ''.'' @ e \<and> CHR ''.'' \<notin> set e \<and>
            (\<exists>c\<in>set stem. c \<noteq> CHR ''.'') \<and>
            lower e \<in> {''png'', ''jpg'', ''jpeg'', ''gif'', ''webp'', ''bmp'', ''tif'', ''tiff'', ''svg''}"
  proof (intro exI conjI)
    show "''peta.lokasi.Jpeg'' = ''peta.lokasi'' @ ''.'' @ ''Jpeg''" by simp
    show "CHR ''.'' \<notin> set ''Jpeg''" by simp
    show "\<exists>c\<in>set ''peta.lokasi''. c \<noteq> CHR ''.''" by simp
    have "lower ''Jpeg'' = ''jpeg''" by code_simp
    then show "lower ''Jpeg'' \<in> {''png'', ''jpg'', ''jpeg'', ''gif'', ''webp'', ''bmp'', ''tif'', ''tiff'', ''svg''}"
      by simp
  qed
  then have "is_image ''peta.lokasi.Jpeg''"
    by (rule is_image_by_extension [of "''peta.lokasi.Jpeg''", THEN conjunct1, THEN mp, OF h,
          THEN iffD2])
  with h show ?thesis by (rule conjI)
qed

text \<open>
  C7 as stated fails on the file name \<^verbatim>\<open>.png\<close>: what follows its last dot is \<^verbatim>\<open>png\<close>, yet
  \<^verbatim>\<open>is_image\<close> is false, because \<^verbatim>\<open>splitext\<close> gives a name of leading dots no extension.
\<close>

theorem is_image_by_extension_counterexample:
  "\<not> is_image ''.png''
   \<and> ''.png'' = [] @ ''.'' @ ''png''
   \<and> CHR ''.'' \<notin> set ''png''
   \<and> lower ''png'' \<in> {''png'', ''jpg'', ''jpeg'', ''gif'', ''webp'', ''bmp'', ''tif'', ''tiff'', ''svg''}"
proof (intro conjI)
  show "\<not> is_image ''.png''" by code_simp
  show "''.png'' = [] @ ''.'' @ ''png''" by simp
  show "CHR ''.'' \<notin> set ''png''" by simp
  have "lower ''png'' = ''png''" by code_simp
  then show "lower ''png'' \<in> {''png'', ''jpg'', ''jpeg'', ''gif'', ''webp'', ''bmp'', ''tif'', ''tiff'', ''svg''}"
    by simp
qed

text \<open>
  C8, where the code departs from it. \<^verbatim>\<open>remote.rstrip(".git")\<close> removes every trailing
  character that is one of \<^verbatim>\<open>.\<close>, \<^verbatim>\<open>g\<close>, \<^verbatim>\<open>i\<close>, \<^verbatim>\<open>t\<close>, not the suffix \<^verbatim>\<open>.git\<close>. For the
  remote \<^verbatim>\<open>https://github.com/o/widget.git\<close> the parsing step returns the repository
  \<^verbatim>\<open>widge\<close>, and for \<^verbatim>\<open>git@github.com:o/digit\<close> it returns \<^verbatim>\<open>d\<close>; a repository name that does
  not end in one of the four characters, as in \<^verbatim>\<open>https://github.com/o/r.git\<close>, comes back whole.
\<close>

theorem rstrip_git_eats_repo_name:
  "owner_repo_of ''https://github.com/o/widget.git'' = Inr (''o'', ''widge'')
   \<and> owner_repo_of ''git@github.com:o/digit'' = Inr (''o'', ''d'')
   \<and> owner_repo_of ''https://github.com/o/r.git'' = Inr (''o'', ''r'')"
  by code_simp

text \<open>
  C9, where the code departs from it. When the \<^verbatim>\<open>git\<close> executable is missing,
  \<^verbatim>\<open>subprocess.check_output\<close> raises FileNotFoundError; \<^verbatim>\<open>get_git_info\<close> converts only
  CalledProcessError and \<^verbatim>\<open>main\<close> catches only ValueError, so the exception leaves
  \<^verbatim>\<open>main\<close> and no row is written. When git runs and exits with a non-zero status, the run
  goes on and the row has an empty URL.
\<close>

theorem missing_git_aborts_run:
  "get_git_info no_git_world = Inl FileNotFoundError
   \<and> main_v2 no_git_world [''Proj''] = Inl FileNotFoundError
   \<and> main_v2 (no_git_world \<lparr> git_remote := NonZeroExit \<rparr>) [''Proj''] =
       Inr (0, Some [csv_header,
         [''Proj'', ''M3'', ''D.I Foo'', ''./Proj/M3/1. D.I Foo/img.png'', []]])"
  by code_simp

text \<open>
  C10. \<^verbatim>\<open>row_from_path\<close> of \<^verbatim>\<open>link-list-new.py\<close> returns a row of four columns for every path,
  and whenever the sub-unit column (index 2) of the row is not empty, it starts with \<^verbatim>\<open>D.I\<close>.
\<close>

theorem marker_search_nonempty_starts_with_marker:
  "(\<exists>project period d image. row_from_path_new path = Inr [project, period, d, image])
   \<and> (row_from_path_new path = Inr r \<and> r ! 2 \<noteq> [] \<longrightarrow> prefix ''D.I'' (r ! 2))"
proof -
  obtain p q d where row: "row_from_path_new path = Inr [p, q, d, ''./'' @ path]"
    and d: "d = [] \<or> prefix ''D.I'' d"
    using row_from_path_new_total [of path] by blast
  show ?thesis
  proof (intro conjI impI)
    show "\<exists>project period d image. row_from_path_new path = Inr [project, period, d, image]"
      using row by blast
  next
    assume "row_from_path_new path = Inr r \<and> r ! 2 \<noteq> []"
    with row have "r = [p, q, d, ''./'' @ path]" "r ! 2 \<noteq> []" by simp_all
    with d show "prefix ''D.I'' (r ! 2)" by simp
  qed
qed

text \<open>
  A path whose sub-unit column is not empty.
\<close>

theorem marker_search_nonempty_starts_with_marker_witness:
  "row_from_path_new ''Oplah A/M3/1. M3 D.I Cibaliung /foto/a.jpg'' =
     Inr [''Oplah A'', ''M3'', ''D.I Cibaliung'', ''./Oplah A/M3/1. M3 D.I Cibaliung /foto/a.jpg'']
   \<and> ''D.I Cibaliung'' \<noteq> []
   \<and> prefix ''D.I'' ''D.I Cibaliung''"
proof -
  let ?p = "''Oplah A/M3/1. M3 D.I Cibaliung /foto/a.jpg''"
  let ?r = "[''Oplah A'', ''M3'', ''D.I Cibaliung'', ''./Oplah A/M3/1. M3 D.I Cibaliung /foto/a.jpg'']"
  have row: "row_from_path_new ?p = Inr ?r" by (simp add: eval_defs)
  have ne: "?r ! 2 \<noteq> []" by simp
  have "prefix ''D.I'' (?r ! 2)"
    by (rule marker_search_nonempty_starts_with_marker [of ?p ?r,
          THEN conjunct2, THEN mp, OF conjI [OF row ne]])
  then have "prefix ''D.I'' ''D.I Cibaliung''" by simp
  with row show ?thesis by simp
qed

end
